theory Spec2Isabelle
  imports Complex_Main "HOL-Library.Word" "HOL-Library.Multiset"
begin

unbundle bit_operations_syntax

section \<open>Data model (filemap.h)\<close>

type_synonym u32 = "32 word"
type_synonym u64 = "64 word"

text \<open>The inode classification bits.\<close>

definition FM_IFLAGS_FRAGMENTED :: u32 where "FM_IFLAGS_FRAGMENTED = 0x01"
definition FM_IFLAGS_UNORDERED :: u32 where "FM_IFLAGS_UNORDERED = 0x02"
definition FM_IFLAGS_UNALIGNED :: u32 where "FM_IFLAGS_UNALIGNED = 0x04"
definition FM_IFLAGS_PRINTED :: u32 where "FM_IFLAGS_PRINTED = 0x08"

text \<open>Constants of the system headers that the sources use: the file-type bits of
  \<^verbatim>\<open>st_mode\<close> and the last-extent marker of \<^verbatim>\<open>linux/fiemap.h\<close>.\<close>

definition S_IFMT :: u32 where "S_IFMT = 0xF000"
definition S_IFDIR :: u32 where "S_IFDIR = 0x4000"
definition S_IFREG :: u32 where "S_IFREG = 0x8000"
definition FIEMAP_EXTENT_LAST :: u32 where "FIEMAP_EXTENT_LAST = 0x01"

datatype fm_sort_direction = FM_SORTDIR_ASCENDING | FM_SORTDIR_DESCENDING

datatype fm_sort_method =
    FM_SORTMETH_EXTENT_OFFSET
  | FM_SORTMETH_EXTENT_LENGTH
  | FM_SORTMETH_INODE_EXTENT_COUNT
  | FM_SORTMETH_INODE_LINK_COUNT
  | FM_SORTMETH_INODE_NUMBER
  | FM_SORTMETH_FILESIZE
  | FM_SORTMETH_FILENAME

text \<open>The fields of \<^verbatim>\<open>struct stat\<close> that the program reads. \<^verbatim>\<open>st_size\<close> is
  the signed 64-bit \<^verbatim>\<open>off_t\<close>: it is stored as a word and compared with the signed
  order.\<close>

record stat =
  st_dev :: u64
  st_ino :: u64
  st_mode :: u32
  st_size :: u64
  st_blksize :: u64

text \<open>One slot of the kernel's extent array (\<^verbatim>\<open>struct fiemap_extent\<close>).\<close>

record fiemap_extent =
  fe_physical :: u64
  fe_length :: u64
  fe_flags :: u32

text \<open>\<^verbatim>\<open>struct fm_extent\<close>. The pointer \<^verbatim>\<open>inode\<close> is represented by the inode number
  of the inode it points to: the table of inodes holds one inode per number. The two
  \<^verbatim>\<open>flags\<close> fields of the C structures are \<open>eflags\<close> and \<open>iflags\<close> here.\<close>

record fm_extent =
  off :: u64
  inode :: u64
  len :: u64
  pos :: u64
  eflags :: u32

text \<open>\<^verbatim>\<open>struct fm_inode\<close>. The doubly-linked list \<^verbatim>\<open>names\<close> of \<^verbatim>\<open>struct fm_name\<close> is the
  list of the name strings, head first; the empty list is the \<^verbatim>\<open>NULL\<close> head.\<close>

record fm_inode =
  inum :: u64
  sb :: stat
  names :: "string list"
  extcount :: u64
  namecount :: u64
  iflags :: u32

section \<open>Comparators (sort.c)\<close>

text \<open>\<^verbatim>\<open>strcmp(3)\<close>: the two strings are read up to their terminating NUL (the end of the
  list, or a zero byte in it); the result is the difference of the first two bytes that
  differ, read as unsigned, the terminator being 0.\<close>

fun strcmp :: "string \<Rightarrow> string \<Rightarrow> int" where
  "strcmp [] [] = 0"
| "strcmp [] (y # ys) = - int (of_char y)"
| "strcmp (x # xs) [] = int (of_char x)"
| "strcmp (x # xs) (y # ys) =
     (if x \<noteq> y then int (of_char x) - int (of_char y)
      else if of_char x = (0 :: nat) then 0
      else strcmp xs ys)"

text \<open>The three-way result every comparator builds from two keys.\<close>

definition three_way :: "bool \<Rightarrow> bool \<Rightarrow> int" where
  "three_way lt gt = (if lt then - 1 else if gt then 1 else 0)"

text \<open>\<^verbatim>\<open>HASH_FIND(hh, fm_inodes, &inum, sizeof inum, fi)\<close>: the first inode of the table
  with this number, \<open>None\<close> for \<^verbatim>\<open>NULL\<close>. Dereferencing \<^verbatim>\<open>extent->inode\<close> is this
  lookup.\<close>

definition find_inode :: "fm_inode list \<Rightarrow> u64 \<Rightarrow> fm_inode option" where
  "find_inode tbl k = find (\<lambda>fi. inum fi = k) tbl"

definition fm_sortby_extoff_cb :: "fm_extent \<Rightarrow> fm_extent \<Rightarrow> int" where
  "fm_sortby_extoff_cb in1 in2 = three_way (off in1 < off in2) (off in1 > off in2)"

definition fm_sortby_extlen_cb :: "fm_extent \<Rightarrow> fm_extent \<Rightarrow> int" where
  "fm_sortby_extlen_cb in1 in2 = three_way (len in1 < len in2) (len in1 > len in2)"

text \<open>The five comparators that go through \<^verbatim>\<open>in1->inode\<close> and \<^verbatim>\<open>in2->inode\<close>; the
  result is \<open>None\<close> where the C code would dereference a pointer that is not valid (an
  inode missing from the table, or the \<^verbatim>\<open>NULL\<close> head of an empty name list).\<close>

definition fm_sortby_extcnt_cb :: "fm_inode list \<Rightarrow> fm_extent \<Rightarrow> fm_extent \<Rightarrow> int option" where
  "fm_sortby_extcnt_cb tbl in1 in2 =
     (case (find_inode tbl (inode in1), find_inode tbl (inode in2)) of
        (Some i1, Some i2) \<Rightarrow>
          Some (three_way (extcount i1 < extcount i2) (extcount i1 > extcount i2))
      | _ \<Rightarrow> None)"

definition fm_sortby_inofcnt_cb :: "fm_inode list \<Rightarrow> fm_extent \<Rightarrow> fm_extent \<Rightarrow> int option" where
  "fm_sortby_inofcnt_cb tbl in1 in2 =
     (case (find_inode tbl (inode in1), find_inode tbl (inode in2)) of
        (Some i1, Some i2) \<Rightarrow>
          Some (three_way (namecount i1 < namecount i2) (namecount i1 > namecount i2))
      | _ \<Rightarrow> None)"

definition fm_sortby_inonum_cb :: "fm_inode list \<Rightarrow> fm_extent \<Rightarrow> fm_extent \<Rightarrow> int option" where
  "fm_sortby_inonum_cb tbl in1 in2 =
     (case (find_inode tbl (inode in1), find_inode tbl (inode in2)) of
        (Some i1, Some i2) \<Rightarrow> Some (three_way (inum i1 < inum i2) (inum i1 > inum i2))
      | _ \<Rightarrow> None)"

definition fm_sortby_inofsz_cb :: "fm_inode list \<Rightarrow> fm_extent \<Rightarrow> fm_extent \<Rightarrow> int option" where
  "fm_sortby_inofsz_cb tbl in1 in2 =
     (case (find_inode tbl (inode in1), find_inode tbl (inode in2)) of
        (Some i1, Some i2) \<Rightarrow>
          Some (three_way (st_size (sb i1) <s st_size (sb i2))
                          (st_size (sb i2) <s st_size (sb i1)))
      | _ \<Rightarrow> None)"

definition fm_sortby_inofname_cb :: "fm_inode list \<Rightarrow> fm_extent \<Rightarrow> fm_extent \<Rightarrow> int option" where
  "fm_sortby_inofname_cb tbl in1 in2 =
     (case (find_inode tbl (inode in1), find_inode tbl (inode in2)) of
        (Some i1, Some i2) \<Rightarrow>
          (case (names i1, names i2) of
             (n1 # _, n2 # _) \<Rightarrow> Some (three_way (strcmp n1 n2 < 0) (strcmp n1 n2 > 0))
           | _ \<Rightarrow> None)
      | _ \<Rightarrow> None)"

text \<open>\<^verbatim>\<open>fm_sortby_extent_cb\<close>: the first switch picks the comparator of the method, the
  second applies the direction to its result \<open>ret\<close>.\<close>

definition apply_direction :: "fm_sort_direction \<Rightarrow> int \<Rightarrow> int" where
  "apply_direction d ret =
     (case d of
        FM_SORTDIR_ASCENDING \<Rightarrow> ret
      | FM_SORTDIR_DESCENDING \<Rightarrow> (if ret < 0 then 1 else if ret > 0 then - 1 else 0))"

definition method_cb :: "fm_sort_method \<Rightarrow> fm_inode list \<Rightarrow> fm_extent \<Rightarrow> fm_extent \<Rightarrow> int option" where
  "method_cb m tbl in1 in2 =
     (case m of
        FM_SORTMETH_EXTENT_OFFSET \<Rightarrow> Some (fm_sortby_extoff_cb in1 in2)
      | FM_SORTMETH_EXTENT_LENGTH \<Rightarrow> Some (fm_sortby_extlen_cb in1 in2)
      | FM_SORTMETH_INODE_EXTENT_COUNT \<Rightarrow> fm_sortby_extcnt_cb tbl in1 in2
      | FM_SORTMETH_INODE_LINK_COUNT \<Rightarrow> fm_sortby_inofcnt_cb tbl in1 in2
      | FM_SORTMETH_INODE_NUMBER \<Rightarrow> fm_sortby_inonum_cb tbl in1 in2
      | FM_SORTMETH_FILESIZE \<Rightarrow> fm_sortby_inofsz_cb tbl in1 in2
      | FM_SORTMETH_FILENAME \<Rightarrow> fm_sortby_inofname_cb tbl in1 in2)"

definition fm_sortby_extent_cb ::
  "fm_sort_method \<Rightarrow> fm_sort_direction \<Rightarrow> fm_inode list \<Rightarrow> fm_extent \<Rightarrow> fm_extent \<Rightarrow> int option" where
  "fm_sortby_extent_cb m d tbl in1 in2 =
     (case method_cb m tbl in1 in2 of
        None \<Rightarrow> None
      | Some ret \<Rightarrow> Some (apply_direction d ret))"

definition fm_sortby_filename_cb :: "string \<Rightarrow> string \<Rightarrow> int" where
  "fm_sortby_filename_cb in1 in2 = three_way (strcmp in1 in2 < 0) (strcmp in1 in2 > 0)"

text \<open>What a sort by a comparator \<open>c\<close> leaves behind: no element is followed, anywhere
  later in the sequence, by one that \<open>c\<close> puts strictly before it.\<close>

definition in_order :: "('a \<Rightarrow> 'a \<Rightarrow> int option) \<Rightarrow> 'a \<Rightarrow> 'a \<Rightarrow> bool" where
  "in_order c a b = (case c a b of None \<Rightarrow> False | Some r \<Rightarrow> r \<le> 0)"

definition ordered_by :: "('a \<Rightarrow> 'a \<Rightarrow> int option) \<Rightarrow> 'a list \<Rightarrow> bool" where
  "ordered_by c ys = sorted_wrt (in_order c) ys"

text \<open>\<open>precedes a b ys\<close>: an occurrence of \<open>a\<close> stands before an occurrence of \<open>b\<close>.\<close>

fun precedes :: "'a \<Rightarrow> 'a \<Rightarrow> 'a list \<Rightarrow> bool" where
  "precedes a b [] = False"
| "precedes a b (y # ys) = ((y = a \<and> b \<in> set ys) \<or> precedes a b ys)"

section \<open>The graph builder (extents.c)\<close>

text \<open>The diagnostics that the failure paths print before they return \<^verbatim>\<open>false\<close>, named by
  the call or condition they report.\<close>

datatype fm_message =
    MSG_IOCTL_FIEMAP
  | MSG_REALLOC
  | MSG_CALLOC
  | MSG_TRUNCATED
  | MSG_SHARED_EXTENTS
  | MSG_FSYNC
  | MSG_FDOPENDIR
  | MSG_READDIR
  | MSG_FSTATAT
  | MSG_OPENAT
  | MSG_FSTAT
  | MSG_OPEN
  | MSG_NOT_FILE_OR_DIR

text \<open>Where the C code has no defined behaviour: a read past the end of the scratch
  buffer, a remainder by a block size of zero, a comparator called on an extent whose inode
  is not there.\<close>

datatype fm_undefined = READ_PAST_BUFFER | DIVIDE_BY_ZERO | INVALID_POINTER

text \<open>What a scanning function does: it returns \<^verbatim>\<open>true\<close>, or prints a diagnostic and
  returns \<^verbatim>\<open>false\<close>, or runs into undefined behaviour.\<close>

datatype fm_ret = RET_TRUE | RET_FALSE fm_message | UNDEFINED fm_undefined

text \<open>The calls into the kernel and the C library whose failure the program checks, and the
  trace of what the program did: such a call with its outcome, the closing of a
  descriptor, a diagnostic printed on a failure path.\<close>

datatype call =
    FS_IOC_FIEMAP | REALLOC | CALLOC | FSYNC | FDOPENDIR | READDIR | FSTATAT | OPENAT | FSTAT | OPEN

datatype event = Did call bool | Close int | Diagnostic fm_message

text \<open>The global variables of main.c that the scan updates, the static capacity
  \<^verbatim>\<open>fmh_extent_count\<close> of the scratch buffer of extents.c, and the trace. The two hash
  tables are the lists of their elements in insertion order, which is the order in which
  uthash iterates.\<close>

record fm_globals =
  fm_extents :: "fm_extent list"
  fm_inodes :: "fm_inode list"
  fm_integral_blksz :: bool
  fm_extent_count :: u64
  fm_inode_count :: u64
  fm_file_count :: u64
  fm_dir_count :: u64
  fm_blksz :: u64
  fmh_extent_count :: u32
  trace :: "event list"

text \<open>What the environment answers during one call of \<^verbatim>\<open>fm_scan_extents\<close>:
  \<^item> \<open>ioctl_count\<close>: the first \<^verbatim>\<open>FS_IOC_FIEMAP\<close>, issued with a capacity of 0: \<open>None\<close> when
    it fails, otherwise the \<^verbatim>\<open>fm_mapped_extents\<close> it reports;
  \<^item> \<open>realloc_ok\<close>: whether \<^verbatim>\<open>realloc\<close> succeeds, when the buffer is grown;
  \<^item> \<open>ioctl_map\<close>: the second \<^verbatim>\<open>FS_IOC_FIEMAP\<close>: \<open>None\<close> when it fails, otherwise the
    \<^verbatim>\<open>fm_mapped_extents\<close> it reports and the slots of \<^verbatim>\<open>fm_extents\<close> it has written
    (the kernel writes as many slots as it reports, and none when the capacity is 0);
  \<^item> \<open>calloc_inode_ok\<close>, \<open>calloc_extent_ok i\<close> (in the iteration \<open>i\<close> of the loop),
    \<open>calloc_name_ok\<close>: whether the three \<^verbatim>\<open>calloc\<close> calls succeed.\<close>

record scan_env =
  ioctl_count :: "u32 option"
  realloc_ok :: bool
  ioctl_map :: "(u32 \<times> fiemap_extent list) option"
  calloc_inode_ok :: bool
  calloc_extent_ok :: "nat \<Rightarrow> bool"
  calloc_name_ok :: bool

definition log :: "event list \<Rightarrow> fm_globals \<Rightarrow> fm_globals" where
  "log evs s = s\<lparr>trace := trace s @ evs\<rparr>"

text \<open>A failure path: the failed call if there is one, the diagnostic, \<^verbatim>\<open>return false\<close>.\<close>

definition fail :: "event list \<Rightarrow> fm_message \<Rightarrow> fm_globals \<Rightarrow> fm_ret \<times> fm_globals" where
  "fail evs msg s = (RET_FALSE msg, log (evs @ [Diagnostic msg]) s)"

text \<open>\<^verbatim>\<open>HASH_FIND(hh, fm_extents, &this_extoff, sizeof this_extoff, fe)\<close>.\<close>

definition find_extent :: "fm_extent list \<Rightarrow> u64 \<Rightarrow> fm_extent option" where
  "find_extent tbl k = find (\<lambda>fe. off fe = k) tbl"

text \<open>An assignment through the pointer that \<^verbatim>\<open>HASH_FIND\<close> returned for the key \<open>k\<close>.\<close>

fun update_inode :: "u64 \<Rightarrow> (fm_inode \<Rightarrow> fm_inode) \<Rightarrow> fm_inode list \<Rightarrow> fm_inode list" where
  "update_inode k f [] = []"
| "update_inode k f (fi # tbl) = (if inum fi = k then f fi # tbl else fi # update_inode k f tbl)"

text \<open>Modelled from the spec: the macro \<^verbatim>\<open>DL_SORT\<close> of utlist.h, which is not among the
  sources. The spec: the list is kept sorted after every insertion, with insertion-sort
  semantics. It is a stable sort by the comparator: an element goes before the first one
  that the comparator does not put before it.\<close>

fun sort_insert :: "('a \<Rightarrow> 'a \<Rightarrow> int) \<Rightarrow> 'a \<Rightarrow> 'a list \<Rightarrow> 'a list" where
  "sort_insert c x [] = [x]"
| "sort_insert c x (y # ys) = (if c x y \<le> 0 then x # y # ys else y # sort_insert c x ys)"

definition DL_SORT :: "('a \<Rightarrow> 'a \<Rightarrow> int) \<Rightarrow> 'a list \<Rightarrow> 'a list" where
  "DL_SORT c xs = foldr (sort_insert c) xs []"

definition PATH_MAX :: nat where "PATH_MAX = 4096"

text \<open>Lines 61 to 72: the capacity of the scratch buffer after the first query reported
  \<open>mapped\<close> extents. The arithmetic is that of \<^verbatim>\<open>uint32_t\<close>.\<close>

definition new_capacity :: "u32 \<Rightarrow> u32 \<Rightarrow> u32" where
  "new_capacity cap mapped =
     (if cap \<le> mapped then mapped + ((mapped + 256) mod 256) else cap)"

definition grow_buffer :: "scan_env \<Rightarrow> u32 \<Rightarrow> fm_globals \<Rightarrow> fm_ret \<times> fm_globals" where
  "grow_buffer env mapped s =
     (if fmh_extent_count s \<le> mapped then
        (let s1 = s\<lparr>fmh_extent_count := new_capacity (fmh_extent_count s) mapped\<rparr> in
         if \<not> realloc_ok env then fail [Did REALLOC False] MSG_REALLOC s1
         else (RET_TRUE, log [Did REALLOC True] s1))
      else (RET_TRUE, s))"

text \<open>Lines 132 to 143: the flags of the inode after the extent \<open>this\<close> has been compared
  with its predecessor \<open>prev\<close> in the kernel's array. The sum is that of \<^verbatim>\<open>uint64_t\<close>.\<close>

definition classify :: "fiemap_extent \<Rightarrow> fiemap_extent \<Rightarrow> u32 \<Rightarrow> u32" where
  "classify prev this fl =
     (let fl1 = (if fe_physical this > fe_physical prev + fe_length prev
                 then fl OR FM_IFLAGS_FRAGMENTED else fl)
      in if fe_physical this < fe_physical prev
         then fl1 OR (FM_IFLAGS_FRAGMENTED OR FM_IFLAGS_UNORDERED) else fl1)"

text \<open>Lines 99 to 152, one iteration of the loop, for the slot \<open>i\<close>. \<open>k\<close> is the inode
  number that stands for the pointer \<open>fi\<close>; the inode under construction is \<open>fi\<close>.\<close>

definition extent_body ::
  "scan_env \<Rightarrow> u64 \<Rightarrow> u32 \<Rightarrow> fiemap_extent list \<Rightarrow> nat \<Rightarrow> fm_inode \<Rightarrow> fm_globals
   \<Rightarrow> fm_ret \<times> fm_inode \<times> fm_globals" where
  "extent_body env k mapped slots i fi s =
     (if \<not> i < length slots then (UNDEFINED READ_PAST_BUFFER, fi, s)
      else
        let this_extoff = fe_physical (slots ! i);
            this_extlen = fe_length (slots ! i);
            this_extflg = fe_flags (slots ! i);
            this_extpos = (of_nat (i + 1) :: u64)
        in
        if find_extent (fm_extents s) this_extoff \<noteq> None
        then (RET_FALSE MSG_SHARED_EXTENTS, fi, log [Diagnostic MSG_SHARED_EXTENTS] s)
        else if \<not> calloc_extent_ok env i
        then (RET_FALSE MSG_CALLOC, fi, log [Did CALLOC False, Diagnostic MSG_CALLOC] s)
        else if this_extpos = ucast mapped \<and> this_extflg AND FIEMAP_EXTENT_LAST = 0
        then (RET_FALSE MSG_TRUNCATED, fi, log [Did CALLOC True, Diagnostic MSG_TRUNCATED] s)
        else
          let fe = \<lparr>off = this_extoff, inode = k, len = this_extlen, pos = this_extpos,
                    eflags = this_extflg\<rparr>;
              fi1 = (if i > 0 then fi\<lparr>iflags := classify (slots ! (i - 1)) (slots ! i) (iflags fi)\<rparr>
                     else fi)
          in
          if fm_blksz s = 0 then (UNDEFINED DIVIDE_BY_ZERO, fi1, log [Did CALLOC True] s)
          else
            let unaligned = (this_extoff mod fm_blksz s \<noteq> 0 \<or> this_extlen mod fm_blksz s \<noteq> 0);
                fi2 = (if unaligned then fi1\<lparr>iflags := iflags fi1 OR FM_IFLAGS_UNALIGNED\<rparr> else fi1);
                s1 = (if unaligned then s\<lparr>fm_integral_blksz := False\<rparr> else s);
                s2 = (log [Did CALLOC True] s1)\<lparr>fm_extents := fm_extents s1 @ [fe]\<rparr>
            in (RET_TRUE, fi2\<lparr>extcount := extcount fi2 + 1\<rparr>, s2))"

text \<open>Lines 97 to 153, the loop \<^verbatim>\<open>for (i = 0; i < fm->fm_mapped_extents; i++)\<close>: an
  iteration that returns \<^verbatim>\<open>false\<close> leaves the function.\<close>

function extent_loop ::
  "scan_env \<Rightarrow> u64 \<Rightarrow> u32 \<Rightarrow> fiemap_extent list \<Rightarrow> nat \<Rightarrow> fm_inode \<Rightarrow> fm_globals
   \<Rightarrow> fm_ret \<times> fm_inode \<times> fm_globals" where
  "extent_loop env k mapped slots i fi s =
     (if \<not> i < unat mapped then (RET_TRUE, fi, s)
      else
        (case extent_body env k mapped slots i fi s of
           (RET_TRUE, fi1, s1) \<Rightarrow> extent_loop env k mapped slots (i + 1) fi1 s1
         | (r, fi1, s1) \<Rightarrow> (r, fi1, s1)))"
  by pat_completeness auto
termination
  by (relation "measure (\<lambda>(env, k, mapped, slots, i, fi, s). unat mapped - i)") auto

declare extent_loop.simps [simp del]

text \<open>\<^verbatim>\<open>calloc(1U, sizeof *fi)\<close>: an inode of zero bytes.\<close>

definition zero_stat :: stat where
  "zero_stat = \<lparr>st_dev = 0, st_ino = 0, st_mode = 0, st_size = 0, st_blksize = 0\<rparr>"

definition zero_inode :: fm_inode where
  "zero_inode = \<lparr>inum = 0, sb = zero_stat, names = [], extcount = 0, namecount = 0, iflags = 0\<rparr>"

text \<open>Lines 47 to 163, the branch \<^verbatim>\<open>fi == NULL\<close>: the two queries, the loop, and the
  insertion of the inode into the table.\<close>

definition query_extents :: "stat \<Rightarrow> scan_env \<Rightarrow> fm_globals \<Rightarrow> fm_ret \<times> fm_globals" where
  "query_extents sb0 env s =
     (case ioctl_count env of
        None \<Rightarrow> fail [Did FS_IOC_FIEMAP False] MSG_IOCTL_FIEMAP s
      | Some mapped1 \<Rightarrow>
          (case grow_buffer env mapped1 (log [Did FS_IOC_FIEMAP True] s) of
             (RET_TRUE, s1) \<Rightarrow>
               (case ioctl_map env of
                  None \<Rightarrow> fail [Did FS_IOC_FIEMAP False] MSG_IOCTL_FIEMAP s1
                | Some (mapped, slots) \<Rightarrow>
                    let s2 = log [Did FS_IOC_FIEMAP True] s1 in
                    if mapped = fmh_extent_count s2 then fail [] MSG_TRUNCATED s2
                    else if \<not> calloc_inode_ok env then fail [Did CALLOC False] MSG_CALLOC s2
                    else
                      (case extent_loop env (st_ino sb0) mapped slots 0 zero_inode
                              (log [Did CALLOC True] s2) of
                         (RET_TRUE, fi, s3) \<Rightarrow>
                           (RET_TRUE,
                            s3\<lparr>fm_inodes := fm_inodes s3 @ [fi\<lparr>sb := sb0, inum := st_ino sb0\<rparr>],
                               fm_extent_count := fm_extent_count s3 + extcount fi,
                               fm_inode_count := fm_inode_count s3 + 1\<rparr>)
                       | (r, fi, s3) \<Rightarrow> (r, s3)))
           | (r, s1) \<Rightarrow> (r, s1)))"

text \<open>Lines 165 to 191: the new name, the counter of files or directories, the sorted name
  list, and \<^verbatim>\<open>close(fd)\<close>.\<close>

definition is_dir :: "stat \<Rightarrow> bool" where
  "is_dir sb0 = (st_mode sb0 AND S_IFMT = S_IFDIR)"

definition is_reg :: "stat \<Rightarrow> bool" where
  "is_reg sb0 = (st_mode sb0 AND S_IFMT = S_IFREG)"

definition new_name :: "stat \<Rightarrow> string \<Rightarrow> string" where
  "new_name sb0 abspath =
     take (PATH_MAX - 1)
       (abspath @ (if is_dir sb0 \<and> strcmp abspath ''/'' \<noteq> 0 then ''/'' else []))"

definition append_name :: "string \<Rightarrow> fm_inode \<Rightarrow> fm_inode" where
  "append_name n fi =
     fi\<lparr>namecount := namecount fi + 1, names := DL_SORT fm_sortby_filename_cb (names fi @ [n])\<rparr>"

definition add_name :: "int \<Rightarrow> stat \<Rightarrow> string \<Rightarrow> scan_env \<Rightarrow> fm_globals \<Rightarrow> fm_ret \<times> fm_globals" where
  "add_name fd sb0 abspath env s =
     (if \<not> calloc_name_ok env then fail [Did CALLOC False] MSG_CALLOC s
      else
        let s1 = (if is_dir sb0 then s\<lparr>fm_dir_count := fm_dir_count s + 1\<rparr>
                  else s\<lparr>fm_file_count := fm_file_count s + 1\<rparr>);
            s2 = s1\<lparr>fm_inodes :=
                      update_inode (st_ino sb0) (append_name (new_name sb0 abspath)) (fm_inodes s1)\<rparr>
        in (RET_TRUE, log [Did CALLOC True, Close fd] s2))"

text \<open>\<^verbatim>\<open>fm_scan_extents(fd, sb, abspath)\<close>. The progress message is not part of the
  model.\<close>

definition fm_scan_extents :: "int \<Rightarrow> stat \<Rightarrow> string \<Rightarrow> scan_env \<Rightarrow> fm_globals \<Rightarrow> fm_ret \<times> fm_globals" where
  "fm_scan_extents fd sb0 abspath env s =
     (case find_inode (fm_inodes s) (st_ino sb0) of
        Some fi \<Rightarrow> add_name fd sb0 abspath env s
      | None \<Rightarrow>
          (case query_extents sb0 env s of
             (RET_TRUE, s1) \<Rightarrow> add_name fd sb0 abspath env s1
           | (r, s1) \<Rightarrow> (r, s1)))"

text \<open>The two tests of the flag bits, as print.c makes them.\<close>

definition fragmented :: "fm_inode \<Rightarrow> bool" where
  "fragmented fi = (iflags fi AND FM_IFLAGS_FRAGMENTED \<noteq> 0)"

definition unordered :: "fm_inode \<Rightarrow> bool" where
  "unordered fi = (iflags fi AND FM_IFLAGS_UNORDERED \<noteq> 0)"

section \<open>The directory walker (dirents.c)\<close>

text \<open>The option variables of main.c that the scan and the report read, with the values
  that \<^verbatim>\<open>fm_parse_options\<close> has left in them.\<close>

record fm_options =
  fm_sort_direction :: fm_sort_direction
  fm_sort_method :: fm_sort_method
  fm_scan_directories :: bool
  fm_fragmented_only :: bool
  fm_skip_preamble :: bool
  fm_sync_files :: bool
  fm_readable_offsets :: bool
  fm_readable_lengths :: bool
  fm_readable_sizes :: bool

text \<open>What the environment answers during one call of \<^verbatim>\<open>fm_scan_directory\<close>: whether
  \<^verbatim>\<open>fsync\<close> and \<^verbatim>\<open>fdopendir\<close> succeed, the stream of the directory, and the answers to the
  extent query on the directory itself. The stream is what the successive calls of
  \<^verbatim>\<open>readdir\<close> return: the end of the directory, an error, or an entry and the rest of the
  stream. An entry carries its name, the answers of \<^verbatim>\<open>fstatat\<close>, \<^verbatim>\<open>openat\<close> (the new
  descriptor) and \<^verbatim>\<open>fstat\<close>, with \<open>None\<close> for a failure, and the environments of the scan
  of the entry as a directory and as a file.\<close>

datatype dir_env = Dir_env bool bool dir_stream scan_env
and dir_stream =
    End_of_directory
  | Readdir_error
  | Entry string "stat option" "int option" "stat option" dir_env scan_env dir_stream

text \<open>Lines 77 and 78 of dirents.c, \<^verbatim>\<open>snprintf(entpath, sizeof entpath, "%s%s%s", ...)\<close>.\<close>

definition entry_path :: "string \<Rightarrow> string \<Rightarrow> string" where
  "entry_path abspath d_name =
     take (PATH_MAX - 1) (abspath @ (if strcmp abspath ''/'' \<noteq> 0 then ''/'' else []) @ d_name)"

text \<open>\<^verbatim>\<open>fm_scan_directory(fd, sb, abspath)\<close>, and its loop over the stream as \<open>walk\<close>. The
  progress messages are not part of the model. \<^verbatim>\<open>closedir\<close> closes the descriptor.\<close>

fun fm_scan_directory ::
  "fm_options \<Rightarrow> int \<Rightarrow> stat \<Rightarrow> string \<Rightarrow> dir_env \<Rightarrow> fm_globals \<Rightarrow> fm_ret \<times> fm_globals"
and walk ::
  "fm_options \<Rightarrow> int \<Rightarrow> stat \<Rightarrow> string \<Rightarrow> dir_stream \<Rightarrow> fm_globals \<Rightarrow> fm_ret \<times> fm_globals"
where
  "fm_scan_directory opts fd sb0 abspath (Dir_env fsync_ok fdopendir_ok stream self) s =
     (if fm_sync_files opts \<and> \<not> fsync_ok then fail [Did FSYNC False] MSG_FSYNC s
      else
        let s1 = (if fm_sync_files opts then log [Did FSYNC True] s else s) in
        if \<not> fdopendir_ok then fail [Did FDOPENDIR False] MSG_FDOPENDIR s1
        else
          (case walk opts fd sb0 abspath stream (log [Did FDOPENDIR True] s1) of
             (RET_TRUE, s2) \<Rightarrow>
               if fm_scan_directories opts then
                 (case fm_scan_extents fd sb0 abspath self s2 of
                    (RET_TRUE, s3) \<Rightarrow> (RET_TRUE, log [Close fd] s3)
                  | (r, s3) \<Rightarrow> (r, s3))
               else (RET_TRUE, log [Close fd] s2)
           | (r, s2) \<Rightarrow> (r, s2)))"
| "walk opts fd sb0 abspath End_of_directory s = (RET_TRUE, log [Did READDIR True] s)"
| "walk opts fd sb0 abspath Readdir_error s = fail [Did READDIR False] MSG_READDIR s"
| "walk opts fd sb0 abspath (Entry d_name fstatat_res openat_res fstat_res sub file rest) s =
     (let s1 = log [Did READDIR True] s in
      if strcmp d_name ''.'' = 0 \<or> strcmp d_name ''..'' = 0 then walk opts fd sb0 abspath rest s1
      else
        (case fstatat_res of
           None \<Rightarrow> fail [Did FSTATAT False] MSG_FSTATAT s1
         | Some esb1 \<Rightarrow>
             let s2 = log [Did FSTATAT True] s1 in
             if st_dev esb1 \<noteq> st_dev sb0 then walk opts fd sb0 abspath rest s2
             else if \<not> (is_dir esb1 \<or> is_reg esb1) then walk opts fd sb0 abspath rest s2
             else
               (case openat_res of
                  None \<Rightarrow> fail [Did OPENAT False] MSG_OPENAT s2
                | Some efd \<Rightarrow>
                    (case fstat_res of
                       None \<Rightarrow> fail [Did OPENAT True, Did FSTAT False] MSG_FSTAT s2
                     | Some esb \<Rightarrow>
                         let s3 = log [Did OPENAT True, Did FSTAT True] s2 in
                         if st_dev esb \<noteq> st_dev sb0
                         then walk opts fd sb0 abspath rest (log [Close efd] s3)
                         else if is_dir esb then
                           (case fm_scan_directory opts efd esb (entry_path abspath d_name) sub s3 of
                              (RET_TRUE, s4) \<Rightarrow> walk opts fd sb0 abspath rest s4
                            | (r, s4) \<Rightarrow> (r, s4))
                         else if is_reg esb then
                           (case fm_scan_extents efd esb (entry_path abspath d_name) file s3 of
                              (RET_TRUE, s4) \<Rightarrow> walk opts fd sb0 abspath rest s4
                            | (r, s4) \<Rightarrow> (r, s4))
                         else walk opts fd sb0 abspath rest (log [Close efd] s3)))))"

text \<open>A scan, as far as the two tables are concerned, is a sequence of calls of
  \<^verbatim>\<open>fm_scan_extents\<close> on the global variables, one for each name, in the order of the walk,
  that stops at the first call that does not return \<^verbatim>\<open>true\<close> (the walker itself touches
  neither table). A call is given by its descriptor, its metadata, its path and the answers
  of its environment.\<close>

type_synonym scan_call = "int \<times> stat \<times> string \<times> scan_env"

definition call_ino :: "scan_call \<Rightarrow> u64" where
  "call_ino c = (case c of (fd, sb0, abspath, env) \<Rightarrow> st_ino sb0)"

fun scan_calls :: "scan_call list \<Rightarrow> fm_globals \<Rightarrow> fm_ret \<times> fm_globals" where
  "scan_calls [] s = (RET_TRUE, s)"
| "scan_calls (c # cs) s =
     (case c of (fd, sb0, abspath, env) \<Rightarrow>
        (case fm_scan_extents fd sb0 abspath env s of
           (RET_TRUE, s1) \<Rightarrow> scan_calls cs s1
         | (r, s1) \<Rightarrow> (r, s1)))"

section \<open>The report (print.c) and main.c\<close>

text \<open>The lines that \<^verbatim>\<open>fm_print_results\<close> writes to the standard output, by what they
  hold; the layout of a line is not part of the model. The two figures of the line of the
  fragmented inodes are printed with \<^verbatim>\<open>%.2Lf\<close>: they are held as a number of hundredths,
  and as \<open>None\<close> where the quotient has a zero divisor and is not a finite number.\<close>

datatype unit_kind = Human_readable | Filesystem_blocks u64 | Bytes

datatype out_line =
    Offsets_in unit_kind
  | Lengths_in unit_kind
  | Sizes_in unit_kind
  | Mapped u64 "u64 option" u64 u64
  | Fragmented_inodes u64 u64 "int option" "int option"
  | Blank
  | Requested_fragmented_only bool bool
  | Table_header
  | Extent_row fm_extent fm_inode string
  | Name_row string
  | Seen_row

text \<open>Lines 198 to 205: the loop over the inodes, with the two accumulators
  \<^verbatim>\<open>fragged_extents\<close> and \<^verbatim>\<open>fragged_inodes\<close>, both \<^verbatim>\<open>uint64_t\<close>.\<close>

definition tally :: "fm_inode \<Rightarrow> u64 \<times> u64 \<Rightarrow> u64 \<times> u64" where
  "tally ino acc =
     (case acc of (fragged_extents, fragged_inodes) \<Rightarrow>
        if iflags ino AND FM_IFLAGS_FRAGMENTED = 0 then acc
        else (fragged_extents + extcount ino, fragged_inodes + 1))"

definition fragged_totals :: "fm_inode list \<Rightarrow> u64 \<times> u64" where
  "fragged_totals tbl = fold tally tbl (0, 0)"

text \<open>The arithmetic of \<^verbatim>\<open>long double\<close>. Its format is the platform's: the rounding \<open>ld\<close> of a
  real number to the format is a parameter. A conversion from \<^verbatim>\<open>uint64_t\<close>, a quotient and
  a product are the exact result, rounded; a quotient by zero is not a finite number.\<close>

definition ld_of_u64 :: "(real \<Rightarrow> real) \<Rightarrow> u64 \<Rightarrow> real" where
  "ld_of_u64 ld x = ld (real (unat x))"

definition ld_div :: "(real \<Rightarrow> real) \<Rightarrow> real \<Rightarrow> real \<Rightarrow> real option" where
  "ld_div ld a b = (if b = 0 then None else Some (ld (a / b)))"

definition ld_mul :: "(real \<Rightarrow> real) \<Rightarrow> real \<Rightarrow> real option \<Rightarrow> real option" where
  "ld_mul ld a b = map_option (\<lambda>y. ld (a * y)) b"

text \<open>Line 210, \<open>100.0 * (fragged_inodes / fm_inode_count)\<close>, and line 211,
  \<open>fragged_extents / fragged_inodes\<close>.\<close>

definition inofragpcnt :: "(real \<Rightarrow> real) \<Rightarrow> u64 \<Rightarrow> u64 \<Rightarrow> real option" where
  "inofragpcnt ld fragged_inodes inode_count =
     ld_mul ld 100 (ld_div ld (ld_of_u64 ld fragged_inodes) (ld_of_u64 ld inode_count))"

definition extfragratio :: "(real \<Rightarrow> real) \<Rightarrow> u64 \<Rightarrow> u64 \<Rightarrow> real option" where
  "extfragratio ld fragged_extents fragged_inodes =
     ld_div ld (ld_of_u64 ld fragged_extents) (ld_of_u64 ld fragged_inodes)"

text \<open>The conversion \<^verbatim>\<open>%.2Lf\<close>: the number of hundredths nearest to the value, the even one
  of two that are equally near.\<close>

definition round_half_even :: "real \<Rightarrow> int" where
  "round_half_even x =
     (let f = \<lfloor>x\<rfloor>; d = x - of_int f
      in if d < 1 / 2 then f else if d > 1 / 2 then f + 1 else if even f then f else f + 1)"

definition fmt2 :: "real \<Rightarrow> int" where
  "fmt2 x = round_half_even (100 * x)"

text \<open>Lines 210 to 262: the lines before the table.\<close>

definition preamble :: "(real \<Rightarrow> real) \<Rightarrow> fm_options \<Rightarrow> fm_globals \<Rightarrow> u64 \<Rightarrow> u64 \<Rightarrow> out_line list" where
  "preamble ld opts s fragged_extents fragged_inodes =
     (let pcnt = inofragpcnt ld fragged_inodes (fm_inode_count s);
          ratio = extfragratio ld fragged_extents fragged_inodes
      in
      (if \<not> (fm_fragmented_only opts \<and> fragged_inodes = 0) then
         [Offsets_in (if fm_readable_offsets opts then Human_readable
                      else if fm_integral_blksz s then Filesystem_blocks (fm_blksz s) else Bytes),
          Lengths_in (if fm_readable_lengths opts then Human_readable
                      else if fm_integral_blksz s then Filesystem_blocks (fm_blksz s) else Bytes),
          Sizes_in (if fm_readable_sizes opts then Human_readable else Bytes)]
       else [])
      @ [if fm_scan_directories opts
         then Mapped (fm_file_count s) (Some (fm_dir_count s)) (fm_inode_count s) (fm_extent_count s)
         else Mapped (fm_file_count s) None (fm_inode_count s) (fm_extent_count s)]
      @ (if fragged_inodes \<noteq> 0
         then [Fragmented_inodes fragged_inodes (fm_inode_count s)
                 (map_option fmt2 pcnt) (map_option fmt2 ratio)]
         else [])
      @ (if fm_fragmented_only opts
         then [Blank, Requested_fragmented_only (fm_scan_directories opts) (fragged_inodes \<noteq> 0)]
         else []))"

text \<open>Lines 282 to 324: the rows of one extent, one for each name of its inode unless the
  other names have been shown with an earlier extent.\<close>

definition name_rows :: "fm_extent \<Rightarrow> fm_inode \<Rightarrow> out_line list" where
  "name_rows e ino =
     (case names ino of
        [] \<Rightarrow> []
      | n # ns \<Rightarrow>
          Extent_row e ino n #
          (if ns = [] then []
           else if iflags ino AND FM_IFLAGS_PRINTED = 0 then map Name_row ns
           else [Seen_row]))"

text \<open>Lines 277 to 329: the loop over the extents, in the order of the table. The table of
  inodes is passed along for the flag \<^verbatim>\<open>FM_IFLAGS_PRINTED\<close>.\<close>

fun print_rows :: "bool \<Rightarrow> fm_inode list \<Rightarrow> fm_extent list \<Rightarrow> fm_undefined + out_line list" where
  "print_rows fo tbl [] = Inr []"
| "print_rows fo tbl (e # es) =
     (case find_inode tbl (inode e) of
        None \<Rightarrow> Inl INVALID_POINTER
      | Some ino \<Rightarrow>
          if fo \<and> \<not> fragmented ino then print_rows fo tbl es
          else
            (case print_rows fo
                    (update_inode (inode e) (\<lambda>i. i\<lparr>iflags := iflags i OR FM_IFLAGS_PRINTED\<rparr>) tbl)
                    es of
               Inl u \<Rightarrow> Inl u
             | Inr rows \<Rightarrow> Inr (name_rows e ino @ rows)))"

text \<open>\<^verbatim>\<open>fm_print_results()\<close>: what it writes to the standard output.\<close>

definition fm_print_results ::
  "(real \<Rightarrow> real) \<Rightarrow> fm_options \<Rightarrow> fm_globals \<Rightarrow> fm_undefined + out_line list" where
  "fm_print_results ld opts s =
     (if fm_extent_count s = 0 then Inr []
      else
        (case fragged_totals (fm_inodes s) of (fragged_extents, fragged_inodes) \<Rightarrow>
           let pre = (if fm_skip_preamble opts then []
                      else preamble ld opts s fragged_extents fragged_inodes)
           in if fm_fragmented_only opts \<and> fragged_inodes = 0 then Inr pre
              else
                (case print_rows (fm_fragmented_only opts) (fm_inodes s) (fm_extents s) of
                   Inl u \<Rightarrow> Inl u
                 | Inr rows \<Rightarrow> Inr (pre @ [Blank, Table_header] @ rows))))"

text \<open>Modelled from the spec: the macro \<^verbatim>\<open>HASH_SORT\<close> of uthash.h, which is not among the
  sources. The spec: it total-orders the finished extent collection by the comparator, and
  any order among ties is acceptable. It is a stable sort by the comparator; a comparison
  that is not defined makes the sort undefined.\<close>

fun hash_insert :: "('a \<Rightarrow> 'a \<Rightarrow> int option) \<Rightarrow> 'a \<Rightarrow> 'a list \<Rightarrow> 'a list option" where
  "hash_insert c x [] = Some [x]"
| "hash_insert c x (y # ys) =
     (case c x y of
        None \<Rightarrow> None
      | Some r \<Rightarrow> if r \<le> 0 then Some (x # y # ys) else map_option ((#) y) (hash_insert c x ys))"

fun HASH_SORT :: "('a \<Rightarrow> 'a \<Rightarrow> int option) \<Rightarrow> 'a list \<Rightarrow> 'a list option" where
  "HASH_SORT c [] = Some []"
| "HASH_SORT c (x # xs) =
     (case HASH_SORT c xs of None \<Rightarrow> None | Some ys \<Rightarrow> hash_insert c x ys)"

text \<open>The initial values of the global variables (main.c, and the static variables of
  extents.c).\<close>

definition initial_globals :: fm_globals where
  "initial_globals =
     \<lparr>fm_extents = [], fm_inodes = [], fm_integral_blksz = True, fm_extent_count = 0,
      fm_inode_count = 0, fm_file_count = 0, fm_dir_count = 0, fm_blksz = 0,
      fmh_extent_count = 0, trace = []\<rparr>"

datatype fm_optparse_result =
  FM_OPTPARSE_EXIT_SUCCESS | FM_OPTPARSE_EXIT_FAILURE | FM_OPTPARSE_CONTINUE

definition EXIT_SUCCESS :: int where "EXIT_SUCCESS = 0"
definition EXIT_FAILURE :: int where "EXIT_FAILURE = 1"

text \<open>What the environment answers to \<^verbatim>\<open>main\<close>: the result of \<^verbatim>\<open>fm_parse_options\<close> (which
  has set the options), the path argument, the answers of \<^verbatim>\<open>open\<close> and \<^verbatim>\<open>fstat\<close>, and the
  environments of the scan of the path as a directory and as a file.\<close>

record main_env =
  parse_result :: fm_optparse_result
  path :: string
  open_result :: "int option"
  fstat_result :: "stat option"
  root_dir :: dir_env
  root_file :: scan_env

text \<open>How the process ends: with an exit status, and with the report when
  \<^verbatim>\<open>fm_print_results\<close> has been called (\<open>None\<close> when it has not); or in undefined
  behaviour.\<close>

datatype outcome = Exit int "out_line list option" | Undefined_behaviour fm_undefined

text \<open>Lines 84 to 96 of main.c: the scan of the path.\<close>

definition scan_path ::
  "fm_options \<Rightarrow> int \<Rightarrow> stat \<Rightarrow> main_env \<Rightarrow> fm_globals \<Rightarrow> fm_ret \<times> fm_globals" where
  "scan_path opts fd sb0 env s =
     (if is_dir sb0 then fm_scan_directory opts fd sb0 (path env) (root_dir env) s
      else if is_reg sb0 then fm_scan_extents fd sb0 (path env) (root_file env) s
      else fail [] MSG_NOT_FILE_OR_DIR s)"

text \<open>Lines 104 to 108 of main.c: the sort of the extents and the report.\<close>

definition sort_and_report ::
  "(real \<Rightarrow> real) \<Rightarrow> fm_options \<Rightarrow> fm_globals \<Rightarrow> outcome \<times> fm_globals" where
  "sort_and_report ld opts s =
     (case HASH_SORT (fm_sortby_extent_cb (fm_sort_method opts) (fm_sort_direction opts)
                        (fm_inodes s)) (fm_extents s) of
        None \<Rightarrow> (Undefined_behaviour INVALID_POINTER, s)
      | Some exts \<Rightarrow>
          (case fm_print_results ld opts (s\<lparr>fm_extents := exts\<rparr>) of
             Inl u \<Rightarrow> (Undefined_behaviour u, s\<lparr>fm_extents := exts\<rparr>)
           | Inr out \<Rightarrow> (Exit EXIT_SUCCESS (Some out), s\<lparr>fm_extents := exts\<rparr>)))"

text \<open>\<^verbatim>\<open>main\<close>, with the final value of the global variables.\<close>

definition main :: "(real \<Rightarrow> real) \<Rightarrow> fm_options \<Rightarrow> main_env \<Rightarrow> outcome \<times> fm_globals" where
  "main ld opts env =
     (case parse_result env of
        FM_OPTPARSE_EXIT_SUCCESS \<Rightarrow> (Exit EXIT_SUCCESS None, initial_globals)
      | FM_OPTPARSE_EXIT_FAILURE \<Rightarrow> (Exit EXIT_FAILURE None, initial_globals)
      | FM_OPTPARSE_CONTINUE \<Rightarrow>
          (case open_result env of
             None \<Rightarrow> (Exit EXIT_FAILURE None, log [Did OPEN False, Diagnostic MSG_OPEN] initial_globals)
           | Some fd \<Rightarrow>
               (case fstat_result env of
                  None \<Rightarrow>
                    (Exit EXIT_FAILURE None,
                     log [Did OPEN True, Did FSTAT False, Diagnostic MSG_FSTAT] initial_globals)
                | Some sb0 \<Rightarrow>
                    (case scan_path opts fd sb0 env
                            ((log [Did OPEN True, Did FSTAT True] initial_globals)
                               \<lparr>fm_blksz := st_blksize sb0\<rparr>) of
                       (RET_TRUE, s) \<Rightarrow> sort_and_report ld opts s
                     | (RET_FALSE msg, s) \<Rightarrow> (Exit EXIT_FAILURE None, s)
                     | (UNDEFINED u, s) \<Rightarrow> (Undefined_behaviour u, s)))))"

section \<open>Concrete inputs\<close>

text \<open>The global variables as \<^verbatim>\<open>main\<close> leaves them before the scan of a path on a
  filesystem with blocks of 4096 bytes, and the metadata of a regular file with the inode
  number 7 there.\<close>

definition globals_4096 :: fm_globals where
  "globals_4096 = initial_globals\<lparr>fm_blksz := 4096\<rparr>"

definition sb_file :: stat where
  "sb_file = \<lparr>st_dev = 1, st_ino = 7, st_mode = 0x81A4, st_size = 12288, st_blksize = 4096\<rparr>"

text \<open>An extent of 4096 bytes at a physical offset, with kernel flags.\<close>

definition slot :: "u64 \<Rightarrow> u32 \<Rightarrow> fiemap_extent" where
  "slot k fl = \<lparr>fe_physical = k, fe_length = 4096, fe_flags = fl\<rparr>"

text \<open>An environment in which every call succeeds: the first query reports \<open>n\<close> extents, the
  second reports \<open>m\<close> and has written \<open>xs\<close>.\<close>

definition env_ok :: "u32 \<Rightarrow> u32 \<Rightarrow> fiemap_extent list \<Rightarrow> scan_env" where
  "env_ok n m xs =
     \<lparr>ioctl_count = Some n, realloc_ok = True, ioctl_map = Some (m, xs),
      calloc_inode_ok = True, calloc_extent_ok = (\<lambda>i. True), calloc_name_ok = True\<rparr>"

text \<open>A complete map of 256 extents, the last one with the marker of the last extent.\<close>

definition map_256 :: "fiemap_extent list" where
  "map_256 = map (\<lambda>i. slot (4096 * of_nat i) (if i = 255 then 1 else 0)) [0 ..< 256]"

definition ext_at :: "u64 \<Rightarrow> fm_extent" where
  "ext_at k = \<lparr>off = k, inode = 1, len = 4096, pos = 1, eflags = 1\<rparr>"

text \<open>The three extents at [0, 4096), [4096, 8192) and [16384, 20480), in this order and
  with the first two exchanged; the last one carries the marker of the last extent.\<close>

definition layout_ordered :: "fiemap_extent list" where
  "layout_ordered = [slot 0 0, slot 4096 0, slot 16384 1]"

definition layout_swapped :: "fiemap_extent list" where
  "layout_swapped = [slot 4096 0, slot 0 0, slot 16384 1]"

text \<open>An environment in which the first query fails.\<close>

definition env_ioctl_fails :: scan_env where
  "env_ioctl_fails =
     \<lparr>ioctl_count = None, realloc_ok = True, ioctl_map = None,
      calloc_inode_ok = True, calloc_extent_ok = (\<lambda>i. True), calloc_name_ok = True\<rparr>"

text \<open>The options when the command line holds only the path.\<close>

definition default_options :: fm_options where
  "default_options =
     \<lparr>fm_sort_direction = FM_SORTDIR_ASCENDING, fm_sort_method = FM_SORTMETH_EXTENT_OFFSET,
      fm_scan_directories = False, fm_fragmented_only = False, fm_skip_preamble = False,
      fm_sync_files = False, fm_readable_offsets = False, fm_readable_lengths = False,
      fm_readable_sizes = False\<rparr>"

text \<open>The metadata of a directory and of regular files on the device 1, and a directory
  without entries, to stand where an entry is not a directory.\<close>

definition sb_dir :: stat where
  "sb_dir = \<lparr>st_dev = 1, st_ino = 2, st_mode = 0x41ED, st_size = 4096, st_blksize = 4096\<rparr>"

definition sb_reg :: "u64 \<Rightarrow> stat" where
  "sb_reg k = \<lparr>st_dev = 1, st_ino = k, st_mode = 0x81A4, st_size = 4096, st_blksize = 4096\<rparr>"

definition no_dir :: dir_env where
  "no_dir = Dir_env True True End_of_directory (env_ok 0 0 [])"

text \<open>An entry that is a regular file with the inode number \<open>k\<close>, opened as the descriptor
  \<open>efd\<close>, with one extent at the offset \<open>x\<close>; and an entry on which \<^verbatim>\<open>fstatat\<close> fails.\<close>

definition file_entry :: "string \<Rightarrow> int \<Rightarrow> u64 \<Rightarrow> u64 \<Rightarrow> dir_stream \<Rightarrow> dir_stream" where
  "file_entry n efd k x rest =
     Entry n (Some (sb_reg k)) (Some efd) (Some (sb_reg k)) no_dir (env_ok 1 1 [slot x 1]) rest"

definition bad_entry :: "string \<Rightarrow> dir_stream \<Rightarrow> dir_stream" where
  "bad_entry n rest = Entry n None None None no_dir (env_ok 0 0 []) rest"

text \<open>A directory of five entries, where \<^verbatim>\<open>fstatat\<close> fails on the third.\<close>

definition five_entries :: dir_stream where
  "five_entries =
     file_entry ''a'' 4 11 0 (file_entry ''b'' 5 12 4096 (bad_entry ''c''
       (file_entry ''d'' 6 14 8192 (file_entry ''e'' 7 15 12288 End_of_directory))))"

text \<open>A directory of two files whose extents are at the same physical offset.\<close>

definition two_sharing :: dir_stream where
  "two_sharing = file_entry ''a'' 4 11 0 (file_entry ''b'' 5 12 0 End_of_directory)"

definition main_env_of :: "dir_stream \<Rightarrow> main_env" where
  "main_env_of stream =
     \<lparr>parse_result = FM_OPTPARSE_CONTINUE, path = ''/mnt'', open_result = Some 3,
      fstat_result = Some sb_dir, root_dir = Dir_env True True stream (env_ok 0 0 []),
      root_file = env_ok 0 0 []\<rparr>"

section \<open>Properties of the comparators\<close>

lemma strcmp_swap: "strcmp b a = - strcmp a b"
  by (induction a b rule: strcmp.induct) auto

lemma strcmp_three_way_swap:
  "three_way (strcmp b a < 0) (strcmp b a > 0) = - three_way (strcmp a b < 0) (strcmp a b > 0)"
  unfolding strcmp_swap [of b a] by (simp add: three_way_def)

lemma method_cb_range: "method_cb m tbl a b = Some r \<Longrightarrow> r = - 1 \<or> r = 0 \<or> r = 1"
  by (auto simp: method_cb_def fm_sortby_extoff_cb_def fm_sortby_extlen_cb_def
      fm_sortby_extcnt_cb_def fm_sortby_inofcnt_cb_def fm_sortby_inonum_cb_def
      fm_sortby_inofsz_cb_def fm_sortby_inofname_cb_def three_way_def
      split: fm_sort_method.splits option.splits list.splits if_splits)

lemma inofname_swap:
  "fm_sortby_inofname_cb tbl b a = map_option uminus (fm_sortby_inofname_cb tbl a b)"
proof (cases "find_inode tbl (inode a)")
  case None
  then show ?thesis by (simp add: fm_sortby_inofname_cb_def split: option.splits)
next
  case ia: (Some i1)
  show ?thesis
  proof (cases "find_inode tbl (inode b)")
    case None
    with ia show ?thesis by (simp add: fm_sortby_inofname_cb_def)
  next
    case ib: (Some i2)
    show ?thesis
    proof (cases "names i1")
      case Nil
      with ia ib show ?thesis by (simp add: fm_sortby_inofname_cb_def split: list.splits)
    next
      case na: (Cons n1 r1)
      show ?thesis
      proof (cases "names i2")
        case Nil
        with ia ib na show ?thesis by (simp add: fm_sortby_inofname_cb_def)
      next
        case (Cons n2 r2)
        with ia ib na show ?thesis
          using strcmp_three_way_swap [of n2 n1] by (simp add: fm_sortby_inofname_cb_def)
      qed
    qed
  qed
qed

lemma method_cb_swap: "method_cb m tbl b a = map_option uminus (method_cb m tbl a b)"
proof (cases m)
  case FM_SORTMETH_FILENAME
  then show ?thesis using inofname_swap [of tbl b a] by (simp add: method_cb_def)
qed (auto simp: method_cb_def fm_sortby_extoff_cb_def fm_sortby_extlen_cb_def
      fm_sortby_extcnt_cb_def fm_sortby_inofcnt_cb_def fm_sortby_inonum_cb_def
      fm_sortby_inofsz_cb_def three_way_def
      split: option.splits)

lemma apply_direction_desc: "r = - 1 \<or> r = 0 \<or> r = 1 \<Longrightarrow> apply_direction FM_SORTDIR_DESCENDING r = - r"
  by (auto simp: apply_direction_def)

lemma cb_desc_neg:
  "fm_sortby_extent_cb m FM_SORTDIR_DESCENDING tbl a b =
   map_option uminus (fm_sortby_extent_cb m FM_SORTDIR_ASCENDING tbl a b)"
proof (cases "method_cb m tbl a b")
  case None
  then show ?thesis by (simp add: fm_sortby_extent_cb_def)
next
  case (Some r)
  from method_cb_range [OF Some] have "apply_direction FM_SORTDIR_DESCENDING r = - r"
    by (rule apply_direction_desc)
  with Some show ?thesis by (simp add: fm_sortby_extent_cb_def apply_direction_def)
qed

lemma cb_swap:
  "fm_sortby_extent_cb m d tbl b a = map_option uminus (fm_sortby_extent_cb m d tbl a b)"
proof (cases "method_cb m tbl a b")
  case None
  then show ?thesis by (simp add: fm_sortby_extent_cb_def method_cb_swap [of m tbl b a])
next
  case (Some r)
  then have "method_cb m tbl b a = Some (- r)" by (simp add: method_cb_swap [of m tbl b a])
  with Some show ?thesis
    by (cases d) (auto simp: fm_sortby_extent_cb_def apply_direction_def)
qed

lemma precedes_iff: "precedes a b ys \<longleftrightarrow> (\<exists>us vs. ys = us @ a # vs \<and> b \<in> set vs)"
proof (induction ys)
  case Nil
  then show ?case by simp
next
  case (Cons y ys)
  show ?case
  proof
    assume "precedes a b (y # ys)"
    then consider "y = a" "b \<in> set ys" | "precedes a b ys" by auto
    then show "\<exists>us vs. y # ys = us @ a # vs \<and> b \<in> set vs"
    proof cases
      case 1
      then have "y # ys = [] @ a # ys \<and> b \<in> set ys" by simp
      then show ?thesis by blast
    next
      case 2
      with Cons.IH obtain us vs where "ys = us @ a # vs" "b \<in> set vs" by blast
      then have "y # ys = (y # us) @ a # vs \<and> b \<in> set vs" by simp
      then show ?thesis by blast
    qed
  next
    assume "\<exists>us vs. y # ys = us @ a # vs \<and> b \<in> set vs"
    then obtain us vs where e: "y # ys = us @ a # vs" and b: "b \<in> set vs" by blast
    show "precedes a b (y # ys)"
    proof (cases us)
      case Nil
      with e b show ?thesis by simp
    next
      case (Cons u us')
      with e have "ys = us' @ a # vs" by simp
      with b Cons.IH have "precedes a b ys" by blast
      then show ?thesis by simp
    qed
  qed
qed

lemma precedes_in_order:
  "sorted_wrt R ys \<Longrightarrow> precedes a b ys \<Longrightarrow> R a b"
  by (induction ys) auto

lemma precedes_total:
  "a \<in> set ys \<Longrightarrow> b \<in> set ys \<Longrightarrow> a \<noteq> b \<Longrightarrow> precedes a b ys \<or> precedes b a ys"
  by (induction ys) auto

text \<open>In a sequence ordered by a comparator whose result changes sign when its arguments
  are exchanged, a pair that is not tied stands in the order of the sign.\<close>

lemma ordered_pair_position:
  assumes ord: "ordered_by c ys" and a: "a \<in> set ys" and b: "b \<in> set ys"
    and r: "c a b = Some r" "r \<noteq> 0"
    and swap: "c b a = map_option uminus (c a b)"
    and refl: "c a a = None \<or> c a a = Some 0"
  shows "precedes a b ys \<longleftrightarrow> r < 0"
proof
  assume "precedes a b ys"
  with ord have "in_order c a b" unfolding ordered_by_def by (rule precedes_in_order)
  with r show "r < 0" by (simp add: in_order_def)
next
  assume neg: "r < 0"
  from r refl have "a \<noteq> b" by auto
  with a b have "precedes a b ys \<or> precedes b a ys" by (rule precedes_total)
  moreover have "\<not> precedes b a ys"
  proof
    assume "precedes b a ys"
    with ord have "in_order c b a" unfolding ordered_by_def by (rule precedes_in_order)
    with swap r neg show False by (simp add: in_order_def)
  qed
  ultimately show "precedes a b ys" by blast
qed

lemma cb_refl: "fm_sortby_extent_cb m d tbl a a = None \<or> fm_sortby_extent_cb m d tbl a a = Some 0"
proof (cases "fm_sortby_extent_cb m d tbl a a")
  case None
  then show ?thesis by simp
next
  case (Some r)
  with cb_swap [of m d tbl a a] have "r = - r" by simp
  with Some show ?thesis by simp
qed


text \<open>
  Claim C6. For every sort method and every pair of extents, \<^verbatim>\<open>fm_sortby_extent_cb\<close> with
  the descending direction returns the negation of what it returns with the ascending
  direction on the same pair; the direction is applied to the result of the method's
  comparator, which does not depend on it. Consequently, for a pair that the ascending
  comparator does not tie, in any sequence ordered by the ascending comparator and any
  sequence ordered by the descending one, the two elements stand in opposite orders.
\<close>

theorem fm_sortby_extent_cb_direction:
  "fm_sortby_extent_cb m FM_SORTDIR_DESCENDING tbl a b =
     map_option uminus (fm_sortby_extent_cb m FM_SORTDIR_ASCENDING tbl a b)
   \<and> fm_sortby_extent_cb m d tbl a b = map_option (apply_direction d) (method_cb m tbl a b)
   \<and> (fm_sortby_extent_cb m FM_SORTDIR_ASCENDING tbl a b = Some r \<and> r \<noteq> 0
        \<and> ordered_by (fm_sortby_extent_cb m FM_SORTDIR_ASCENDING tbl) ys
        \<and> ordered_by (fm_sortby_extent_cb m FM_SORTDIR_DESCENDING tbl) zs
        \<and> a \<in> set ys \<and> b \<in> set ys \<and> a \<in> set zs \<and> b \<in> set zs
      \<longrightarrow> (precedes a b ys \<longleftrightarrow> r < 0) \<and> (precedes b a zs \<longleftrightarrow> r < 0)
          \<and> (precedes a b ys \<longleftrightarrow> precedes b a zs)
          \<and> (precedes b a ys \<longleftrightarrow> precedes a b zs))"
proof (intro conjI impI)
  show "fm_sortby_extent_cb m FM_SORTDIR_DESCENDING tbl a b =
     map_option uminus (fm_sortby_extent_cb m FM_SORTDIR_ASCENDING tbl a b)"
    by (rule cb_desc_neg)
  show "fm_sortby_extent_cb m d tbl a b = map_option (apply_direction d) (method_cb m tbl a b)"
    by (simp add: fm_sortby_extent_cb_def split: option.splits)
next
  let ?asc = "fm_sortby_extent_cb m FM_SORTDIR_ASCENDING tbl"
  let ?desc = "fm_sortby_extent_cb m FM_SORTDIR_DESCENDING tbl"
  assume h: "?asc a b = Some r \<and> r \<noteq> 0 \<and> ordered_by ?asc ys \<and> ordered_by ?desc zs
    \<and> a \<in> set ys \<and> b \<in> set ys \<and> a \<in> set zs \<and> b \<in> set zs"
  then have r: "?asc a b = Some r" "r \<noteq> 0" by simp_all
  from r have rd: "?desc a b = Some (- r)" "- r \<noteq> 0" by (simp_all add: cb_desc_neg)
  from r have ra: "?asc b a = Some (- r)" "- r \<noteq> 0" by (simp_all add: cb_swap [of m _ tbl b a])
  from rd have rb: "?desc b a = Some r" by (simp add: cb_swap [of m _ tbl b a])
  have 1: "precedes a b ys \<longleftrightarrow> r < 0"
    using h r by (intro ordered_pair_position [of ?asc]) (simp_all add: cb_swap [of m _ tbl b a] cb_refl)
  have 2: "precedes b a zs \<longleftrightarrow> r < 0"
    using h rb r by (intro ordered_pair_position [of ?desc]) (simp_all add: cb_swap [of m _ tbl a b] cb_refl)
  have 3: "precedes b a ys \<longleftrightarrow> - r < 0"
    using h ra by (intro ordered_pair_position [of ?asc]) (simp_all add: cb_swap [of m _ tbl a b] cb_refl)
  have 4: "precedes a b zs \<longleftrightarrow> - r < 0"
    using h rd by (intro ordered_pair_position [of ?desc]) (simp_all add: cb_swap [of m _ tbl b a] cb_refl)
  from 1 show "precedes a b ys \<longleftrightarrow> r < 0" .
  from 2 show "precedes b a zs \<longleftrightarrow> r < 0" .
  from 1 2 show "precedes a b ys \<longleftrightarrow> precedes b a zs" by simp
  from 3 4 show "precedes b a ys \<longleftrightarrow> precedes a b zs" by simp
qed

theorem fm_sortby_extent_cb_direction_witness:
  "fm_sortby_extent_cb FM_SORTMETH_EXTENT_OFFSET FM_SORTDIR_ASCENDING [] (ext_at 0) (ext_at 4096) = Some (- 1)
   \<and> fm_sortby_extent_cb FM_SORTMETH_EXTENT_OFFSET FM_SORTDIR_DESCENDING [] (ext_at 0) (ext_at 4096) = Some 1
   \<and> ordered_by (fm_sortby_extent_cb FM_SORTMETH_EXTENT_OFFSET FM_SORTDIR_ASCENDING []) [ext_at 0, ext_at 4096]
   \<and> ordered_by (fm_sortby_extent_cb FM_SORTMETH_EXTENT_OFFSET FM_SORTDIR_DESCENDING []) [ext_at 4096, ext_at 0]
   \<and> precedes (ext_at 0) (ext_at 4096) [ext_at 0, ext_at 4096]
   \<and> precedes (ext_at 4096) (ext_at 0) [ext_at 4096, ext_at 0]"
proof -
  let ?a = "ext_at 0" and ?b = "ext_at 4096"
  let ?asc = "fm_sortby_extent_cb FM_SORTMETH_EXTENT_OFFSET FM_SORTDIR_ASCENDING []"
  let ?desc = "fm_sortby_extent_cb FM_SORTMETH_EXTENT_OFFSET FM_SORTDIR_DESCENDING []"
  have ev: "?asc ?a ?b = Some (- 1)" "?asc ?b ?a = Some 1" "?desc ?a ?b = Some 1" "?desc ?b ?a = Some (- 1)"
    by (simp_all add: fm_sortby_extent_cb_def method_cb_def fm_sortby_extoff_cb_def three_way_def
        apply_direction_def ext_at_def)
  have o1: "ordered_by ?asc [?a, ?b]" and o2: "ordered_by ?desc [?b, ?a]"
    by (simp_all add: ordered_by_def in_order_def ev)
  have "precedes ?a ?b [?a, ?b] \<longleftrightarrow> precedes ?b ?a [?b, ?a]"
    using fm_sortby_extent_cb_direction [of FM_SORTMETH_EXTENT_OFFSET "[]" ?a ?b
        FM_SORTDIR_ASCENDING "- 1" "[?a, ?b]" "[?b, ?a]"] ev o1 o2
    by simp
  then show ?thesis using ev o1 o2 by simp
qed

section \<open>Properties of the loop over the extents\<close>

definition has_flag :: "u32 \<Rightarrow> u32 \<Rightarrow> bool" where
  "has_flag fl b = (fl AND b \<noteq> 0)"

lemma has_flag_or: "has_flag (a OR b) c \<longleftrightarrow> has_flag a c \<or> has_flag b c"
  by (simp add: has_flag_def bit.conj_disj_distrib2 or_eq_0_iff)

lemma has_flag_consts:
  "has_flag FM_IFLAGS_FRAGMENTED FM_IFLAGS_FRAGMENTED"
  "has_flag FM_IFLAGS_UNORDERED FM_IFLAGS_UNORDERED"
  "\<not> has_flag FM_IFLAGS_FRAGMENTED FM_IFLAGS_UNORDERED"
  "\<not> has_flag FM_IFLAGS_UNORDERED FM_IFLAGS_FRAGMENTED"
  "\<not> has_flag FM_IFLAGS_UNALIGNED FM_IFLAGS_FRAGMENTED"
  "\<not> has_flag FM_IFLAGS_UNALIGNED FM_IFLAGS_UNORDERED"
  by (simp_all add: has_flag_def FM_IFLAGS_FRAGMENTED_def FM_IFLAGS_UNORDERED_def
      FM_IFLAGS_UNALIGNED_def)

lemma classify_fragmented:
  "has_flag (classify prev this fl) FM_IFLAGS_FRAGMENTED \<longleftrightarrow>
     has_flag fl FM_IFLAGS_FRAGMENTED
     \<or> fe_physical this > fe_physical prev + fe_length prev
     \<or> fe_physical this < fe_physical prev"
  by (auto simp: classify_def Let_def has_flag_or has_flag_consts)

lemma classify_unordered:
  "has_flag (classify prev this fl) FM_IFLAGS_UNORDERED \<longleftrightarrow>
     has_flag fl FM_IFLAGS_UNORDERED \<or> fe_physical this < fe_physical prev"
  by (auto simp: classify_def Let_def has_flag_or has_flag_consts)

text \<open>The condition under which an iteration reaches its end, and what it then leaves in
  the inode under construction and in the global variables.\<close>

definition body_guard :: "scan_env \<Rightarrow> u32 \<Rightarrow> fiemap_extent list \<Rightarrow> nat \<Rightarrow> fm_globals \<Rightarrow> bool" where
  "body_guard env mapped slots i s \<longleftrightarrow>
     i < length slots
     \<and> find_extent (fm_extents s) (fe_physical (slots ! i)) = None
     \<and> calloc_extent_ok env i
     \<and> \<not> ((of_nat (i + 1) :: u64) = ucast mapped \<and> fe_flags (slots ! i) AND FIEMAP_EXTENT_LAST = 0)
     \<and> fm_blksz s \<noteq> 0"

definition new_extent :: "u64 \<Rightarrow> fiemap_extent list \<Rightarrow> nat \<Rightarrow> fm_extent" where
  "new_extent k slots i =
     \<lparr>off = fe_physical (slots ! i), inode = k, len = fe_length (slots ! i),
      pos = of_nat (i + 1), eflags = fe_flags (slots ! i)\<rparr>"

definition unaligned_slot :: "fiemap_extent list \<Rightarrow> nat \<Rightarrow> u64 \<Rightarrow> bool" where
  "unaligned_slot slots i blksz \<longleftrightarrow>
     fe_physical (slots ! i) mod blksz \<noteq> 0 \<or> fe_length (slots ! i) mod blksz \<noteq> 0"

definition body_flags :: "fiemap_extent list \<Rightarrow> nat \<Rightarrow> u64 \<Rightarrow> u32 \<Rightarrow> u32" where
  "body_flags slots i blksz fl =
     (let fl1 = (if 0 < i then classify (slots ! (i - 1)) (slots ! i) fl else fl)
      in if unaligned_slot slots i blksz then fl1 OR FM_IFLAGS_UNALIGNED else fl1)"

definition step_inode :: "fiemap_extent list \<Rightarrow> nat \<Rightarrow> fm_globals \<Rightarrow> fm_inode \<Rightarrow> fm_inode" where
  "step_inode slots i s fi =
     fi\<lparr>iflags := body_flags slots i (fm_blksz s) (iflags fi), extcount := extcount fi + 1\<rparr>"

definition step_globals :: "u64 \<Rightarrow> fiemap_extent list \<Rightarrow> nat \<Rightarrow> fm_globals \<Rightarrow> fm_globals" where
  "step_globals k slots i s =
     s\<lparr>fm_integral_blksz :=
         (if unaligned_slot slots i (fm_blksz s) then False else fm_integral_blksz s),
       trace := trace s @ [Did CALLOC True],
       fm_extents := fm_extents s @ [new_extent k slots i]\<rparr>"

lemma extent_body_guard:
  assumes "body_guard env mapped slots i s"
  shows "extent_body env k mapped slots i fi s =
    (RET_TRUE, step_inode slots i s fi, step_globals k slots i s)"
  using assms
  by (cases "0 < i"; cases "unaligned_slot slots i (fm_blksz s)")
     (simp_all add: body_guard_def extent_body_def body_flags_def new_extent_def
        step_inode_def step_globals_def unaligned_slot_def Let_def log_def)

text \<open>The events of a failure: a call that failed, a diagnostic.\<close>

definition failure :: "event \<Rightarrow> bool" where
  "failure e = (case e of Did c ok \<Rightarrow> \<not> ok | Close fd \<Rightarrow> False | Diagnostic msg \<Rightarrow> True)"

definition is_close :: "event \<Rightarrow> bool" where
  "is_close e = (case e of Close fd \<Rightarrow> True | _ \<Rightarrow> False)"

definition returns_false :: "fm_ret \<Rightarrow> bool" where
  "returns_false r = (case r of RET_FALSE msg \<Rightarrow> True | _ \<Rightarrow> False)"

lemma extent_body_no_guard:
  assumes "\<not> body_guard env mapped slots i s"
  shows "fst (extent_body env k mapped slots i fi s) \<noteq> RET_TRUE
     \<and> fm_extents (snd (snd (extent_body env k mapped slots i fi s))) = fm_extents s
     \<and> fm_inodes (snd (snd (extent_body env k mapped slots i fi s))) = fm_inodes s
     \<and> fmh_extent_count (snd (snd (extent_body env k mapped slots i fi s))) = fmh_extent_count s
     \<and> fm_extent_count (snd (snd (extent_body env k mapped slots i fi s))) = fm_extent_count s
     \<and> fm_inode_count (snd (snd (extent_body env k mapped slots i fi s))) = fm_inode_count s
     \<and> fm_file_count (snd (snd (extent_body env k mapped slots i fi s))) = fm_file_count s
     \<and> fm_dir_count (snd (snd (extent_body env k mapped slots i fi s))) = fm_dir_count s
     \<and> fm_blksz (snd (snd (extent_body env k mapped slots i fi s))) = fm_blksz s
     \<and> (\<exists>evs. trace (snd (snd (extent_body env k mapped slots i fi s))) = trace s @ evs
          \<and> (\<forall>e \<in> set evs. \<not> is_close e)
          \<and> ((\<exists>e \<in> set evs. failure e) \<longleftrightarrow>
                returns_false (fst (extent_body env k mapped slots i fi s))))
     \<and> (i < length slots \<and> fm_blksz s \<noteq> 0 \<longrightarrow>
          returns_false (fst (extent_body env k mapped slots i fi s)))"
  using assms
  by (cases "i < length slots";
      cases "find_extent (fm_extents s) (fe_physical (slots ! i)) = None";
      cases "calloc_extent_ok env i";
      cases "(of_nat (i + 1) :: u64) = ucast mapped \<and> fe_flags (slots ! i) AND FIEMAP_EXTENT_LAST = 0";
      cases "fm_blksz s = 0")
     (simp_all add: body_guard_def extent_body_def Let_def log_def failure_def is_close_def
        returns_false_def)

lemma loop_stop:
  "\<not> i < unat mapped \<Longrightarrow> extent_loop env k mapped slots i fi s = (RET_TRUE, fi, s)"
  by (simp add: extent_loop.simps)

lemma loop_fail:
  assumes "i < unat mapped" "\<not> body_guard env mapped slots i s"
  shows "extent_loop env k mapped slots i fi s = extent_body env k mapped slots i fi s"
proof -
  from extent_body_no_guard [OF assms(2), of k fi]
  have "fst (extent_body env k mapped slots i fi s) \<noteq> RET_TRUE" by simp
  then show ?thesis using assms(1)
    by (subst extent_loop.simps) (auto split: prod.splits fm_ret.splits)
qed

lemma loop_step:
  assumes "i < unat mapped" "body_guard env mapped slots i s"
  shows "extent_loop env k mapped slots i fi s =
     extent_loop env k mapped slots (i + 1) (step_inode slots i s fi) (step_globals k slots i s)"
  using assms(1) by (subst extent_loop.simps) (simp add: extent_body_guard [OF assms(2)])

text \<open>The proof rule of the loop: a property of a run holds when it holds of a loop that
  has reached \<^verbatim>\<open>fm_mapped_extents\<close>, of an iteration that leaves the function, and is
  carried backwards over an iteration that reaches its end.\<close>

lemma extent_loop_rule [consumes 1, case_names stop fail step]:
  assumes run: "extent_loop env k mapped slots i fi s = (r, fi', s')"
    and stop: "\<And>i fi s. \<not> i < unat mapped \<Longrightarrow> P i fi s RET_TRUE fi s"
    and fail: "\<And>i fi s. i < unat mapped \<Longrightarrow> \<not> body_guard env mapped slots i s \<Longrightarrow>
        P i fi s (fst (extent_body env k mapped slots i fi s))
          (fst (snd (extent_body env k mapped slots i fi s)))
          (snd (snd (extent_body env k mapped slots i fi s)))"
    and step: "\<And>i fi s r fi' s'. i < unat mapped \<Longrightarrow> body_guard env mapped slots i s \<Longrightarrow>
        P (i + 1) (step_inode slots i s fi) (step_globals k slots i s) r fi' s' \<Longrightarrow>
        P i fi s r fi' s'"
  shows "P i fi s r fi' s'"
  using run
proof (induction "unat mapped - i" arbitrary: i fi s)
  case 0
  then have "\<not> i < unat mapped" by simp
  with 0 stop [of i fi s] show ?case by (simp add: loop_stop)
next
  case (Suc n)
  then have lt: "i < unat mapped" by simp
  show ?case
  proof (cases "body_guard env mapped slots i s")
    case True
    from Suc.prems have "extent_loop env k mapped slots (i + 1) (step_inode slots i s fi)
        (step_globals k slots i s) = (r, fi', s')"
      by (simp add: loop_step [OF lt True])
    moreover from Suc.hyps(2) have "n = unat mapped - (i + 1)" by simp
    ultimately have "P (i + 1) (step_inode slots i s fi) (step_globals k slots i s) r fi' s'"
      by (rule Suc.hyps(1) [rotated])
    with lt True show ?thesis by (rule step)
  next
    case False
    from Suc.prems have "extent_body env k mapped slots i fi s = (r, fi', s')"
      by (simp add: loop_fail [OF lt False])
    with fail [OF lt False, of fi] show ?thesis by simp
  qed
qed

lemma extent_loop_frame:
  assumes "extent_loop env k mapped slots i fi s = (r, fi', s')"
  shows "fm_inodes s' = fm_inodes s \<and> fmh_extent_count s' = fmh_extent_count s
     \<and> fm_extent_count s' = fm_extent_count s \<and> fm_inode_count s' = fm_inode_count s
     \<and> fm_file_count s' = fm_file_count s \<and> fm_dir_count s' = fm_dir_count s
     \<and> fm_blksz s' = fm_blksz s"
  using assms
proof (induction rule: extent_loop_rule)
  case (stop i fi s)
  show ?case by simp
next
  case (fail i fi s)
  with extent_body_no_guard [of env mapped slots i s k fi] show ?case by simp
next
  case (step i fi s r fi' s')
  then show ?case by (simp add: step_globals_def)
qed

lemma extent_loop_inode:
  assumes "extent_loop env k mapped slots i fi s = (r, fi', s')"
  shows "r = RET_TRUE \<longrightarrow>
     names fi' = names fi \<and> namecount fi' = namecount fi
     \<and> extcount fi' = extcount fi + of_nat (unat mapped - i)
     \<and> (\<forall>j. i \<le> j \<and> j < unat mapped \<longrightarrow> j < length slots)
     \<and> fm_extents s' = fm_extents s @ map (new_extent k slots) [i ..< unat mapped]"
  using assms
proof (induction rule: extent_loop_rule)
  case (stop i fi s)
  then show ?case by simp
next
  case (fail i fi s)
  with extent_body_no_guard [of env mapped slots i s k fi] show ?case by simp
next
  case (step i fi s r fi' s')
  show ?case
  proof
    assume r: "r = RET_TRUE"
    with step.IH have ih: "names fi' = names fi" "namecount fi' = namecount fi"
      "extcount fi' = extcount fi + 1 + of_nat (unat mapped - (i + 1))"
      "\<forall>j. i + 1 \<le> j \<and> j < unat mapped \<longrightarrow> j < length slots"
      "fm_extents s' = (fm_extents s @ [new_extent k slots i]) @
          map (new_extent k slots) [i + 1 ..< unat mapped]"
      by (simp_all add: step_inode_def step_globals_def)
    from step.hyps have il: "i < length slots" by (simp add: body_guard_def)
    have cnt: "(1 :: u64) + of_nat (unat mapped - (i + 1)) = of_nat (unat mapped - i)"
      using step.hyps(1) by (metis Suc_diff_Suc Suc_eq_plus1 of_nat_Suc)
    have range: "\<forall>j. i \<le> j \<and> j < unat mapped \<longrightarrow> j < length slots"
    proof (intro allI impI)
      fix j assume "i \<le> j \<and> j < unat mapped"
      then have "j = i \<or> (i + 1 \<le> j \<and> j < unat mapped)" by auto
      with il ih(4) show "j < length slots" by auto
    qed
    have upt: "[i ..< unat mapped] = i # [i + 1 ..< unat mapped]"
      using step.hyps(1) by (simp add: upt_conv_Cons)
    from ih cnt range upt show "names fi' = names fi \<and> namecount fi' = namecount fi
     \<and> extcount fi' = extcount fi + of_nat (unat mapped - i)
     \<and> (\<forall>j. i \<le> j \<and> j < unat mapped \<longrightarrow> j < length slots)
     \<and> fm_extents s' = fm_extents s @ map (new_extent k slots) [i ..< unat mapped]"
      by (simp add: add.assoc)
  qed
qed

lemma find_extent_None: "find_extent tbl x = None \<longleftrightarrow> x \<notin> off ` set tbl"
  by (auto simp: find_extent_def find_None_iff)

lemma extent_loop_extents:
  assumes "extent_loop env k mapped slots i fi s = (r, fi', s')"
  shows "(\<exists>added. fm_extents s' = fm_extents s @ added \<and> (\<forall>e \<in> set added. inode e = k))
     \<and> (distinct (map off (fm_extents s)) \<longrightarrow> distinct (map off (fm_extents s')))"
  using assms
proof (induction rule: extent_loop_rule)
  case (stop i fi s)
  show ?case by simp
next
  case (fail i fi s)
  with extent_body_no_guard [of env mapped slots i s k fi] show ?case by simp
next
  case (step i fi s r fi' s')
  from step.IH obtain added where
    a: "fm_extents s' = (fm_extents s @ [new_extent k slots i]) @ added"
       "\<forall>e \<in> set added. inode e = k"
    by (auto simp: step_globals_def)
  from step.hyps(2) have fresh: "off (new_extent k slots i) \<notin> off ` set (fm_extents s)"
    by (simp add: body_guard_def find_extent_None new_extent_def)
  have 1: "\<exists>added. fm_extents s' = fm_extents s @ added \<and> (\<forall>e \<in> set added. inode e = k)"
  proof (intro exI conjI)
    show "fm_extents s' = fm_extents s @ (new_extent k slots i # added)" using a(1) by simp
    show "\<forall>e \<in> set (new_extent k slots i # added). inode e = k"
      using a(2) by (simp add: new_extent_def)
  qed
  have 2: "distinct (map off (fm_extents s)) \<longrightarrow> distinct (map off (fm_extents s'))"
  proof
    assume "distinct (map off (fm_extents s))"
    with fresh have "distinct (map off (fm_extents (step_globals k slots i s)))"
      by (simp add: step_globals_def)
    with step.IH show "distinct (map off (fm_extents s'))" by simp
  qed
  from 1 2 show ?case by simp
qed

lemma extent_loop_flags:
  assumes "extent_loop env k mapped slots i fi s = (r, fi', s')"
  shows "r = RET_TRUE \<longrightarrow>
     (has_flag (iflags fi') FM_IFLAGS_FRAGMENTED \<longleftrightarrow>
        has_flag (iflags fi) FM_IFLAGS_FRAGMENTED
        \<or> (\<exists>j. i \<le> j \<and> j < unat mapped \<and> 0 < j
             \<and> (fe_physical (slots ! j) > fe_physical (slots ! (j - 1)) + fe_length (slots ! (j - 1))
                \<or> fe_physical (slots ! j) < fe_physical (slots ! (j - 1)))))
   \<and> (has_flag (iflags fi') FM_IFLAGS_UNORDERED \<longleftrightarrow>
        has_flag (iflags fi) FM_IFLAGS_UNORDERED
        \<or> (\<exists>j. i \<le> j \<and> j < unat mapped \<and> 0 < j
             \<and> fe_physical (slots ! j) < fe_physical (slots ! (j - 1))))"
  using assms
proof (induction rule: extent_loop_rule)
  case (stop i fi s)
  then show ?case by auto
next
  case (fail i fi s)
  with extent_body_no_guard [of env mapped slots i s k fi] show ?case by simp
next
  case (step i fi s r fi' s')
  let ?G = "\<lambda>j. fe_physical (slots ! j) > fe_physical (slots ! (j - 1)) + fe_length (slots ! (j - 1))
                \<or> fe_physical (slots ! j) < fe_physical (slots ! (j - 1))"
  let ?B = "\<lambda>j. fe_physical (slots ! j) < fe_physical (slots ! (j - 1))"
  have split: "\<And>Q. (\<exists>j. i \<le> j \<and> j < unat mapped \<and> 0 < j \<and> Q j) \<longleftrightarrow>
      (0 < i \<and> Q i) \<or> (\<exists>j. i + 1 \<le> j \<and> j < unat mapped \<and> 0 < j \<and> Q j)"
  proof -
    fix Q
    show "(\<exists>j. i \<le> j \<and> j < unat mapped \<and> 0 < j \<and> Q j) \<longleftrightarrow>
      (0 < i \<and> Q i) \<or> (\<exists>j. i + 1 \<le> j \<and> j < unat mapped \<and> 0 < j \<and> Q j)"
    proof
      assume "\<exists>j. i \<le> j \<and> j < unat mapped \<and> 0 < j \<and> Q j"
      then obtain j where j: "i \<le> j" "j < unat mapped" "0 < j" "Q j" by blast
      show "(0 < i \<and> Q i) \<or> (\<exists>j. i + 1 \<le> j \<and> j < unat mapped \<and> 0 < j \<and> Q j)"
      proof (cases "j = i")
        case True
        with j show ?thesis by simp
      next
        case False
        with j have "i + 1 \<le> j" by simp
        with j show ?thesis by blast
      qed
    next
      assume "(0 < i \<and> Q i) \<or> (\<exists>j. i + 1 \<le> j \<and> j < unat mapped \<and> 0 < j \<and> Q j)"
      then show "\<exists>j. i \<le> j \<and> j < unat mapped \<and> 0 < j \<and> Q j"
      proof
        assume "0 < i \<and> Q i"
        with step.hyps(1) show ?thesis by auto
      next
        assume "\<exists>j. i + 1 \<le> j \<and> j < unat mapped \<and> 0 < j \<and> Q j"
        then obtain j where "i + 1 \<le> j" "j < unat mapped" "0 < j" "Q j" by blast
        then have "i \<le> j \<and> j < unat mapped \<and> 0 < j \<and> Q j" by simp
        then show ?thesis by blast
      qed
    qed
  qed
  have f1: "has_flag (iflags (step_inode slots i s fi)) FM_IFLAGS_FRAGMENTED \<longleftrightarrow>
      has_flag (iflags fi) FM_IFLAGS_FRAGMENTED \<or> (0 < i \<and> ?G i)"
    by (simp add: step_inode_def body_flags_def Let_def has_flag_or has_flag_consts
        classify_fragmented)
  have f2: "has_flag (iflags (step_inode slots i s fi)) FM_IFLAGS_UNORDERED \<longleftrightarrow>
      has_flag (iflags fi) FM_IFLAGS_UNORDERED \<or> (0 < i \<and> ?B i)"
    by (simp add: step_inode_def body_flags_def Let_def has_flag_or has_flag_consts
        classify_unordered)
  show ?case
  proof
    assume "r = RET_TRUE"
    with step.IH have ih:
      "has_flag (iflags fi') FM_IFLAGS_FRAGMENTED \<longleftrightarrow>
         has_flag (iflags (step_inode slots i s fi)) FM_IFLAGS_FRAGMENTED
         \<or> (\<exists>j. i + 1 \<le> j \<and> j < unat mapped \<and> 0 < j \<and> ?G j)"
      "has_flag (iflags fi') FM_IFLAGS_UNORDERED \<longleftrightarrow>
         has_flag (iflags (step_inode slots i s fi)) FM_IFLAGS_UNORDERED
         \<or> (\<exists>j. i + 1 \<le> j \<and> j < unat mapped \<and> 0 < j \<and> ?B j)"
      by simp_all
    show "(has_flag (iflags fi') FM_IFLAGS_FRAGMENTED \<longleftrightarrow>
        has_flag (iflags fi) FM_IFLAGS_FRAGMENTED
        \<or> (\<exists>j. i \<le> j \<and> j < unat mapped \<and> 0 < j \<and> ?G j))
      \<and> (has_flag (iflags fi') FM_IFLAGS_UNORDERED \<longleftrightarrow>
        has_flag (iflags fi) FM_IFLAGS_UNORDERED
        \<or> (\<exists>j. i \<le> j \<and> j < unat mapped \<and> 0 < j \<and> ?B j))"
      unfolding ih f1 f2 split [of ?G] split [of ?B] by blast
  qed
qed

text \<open>An extent whose offset is in the table already stops the loop with \<^verbatim>\<open>false\<close>.\<close>

lemma extent_loop_shared:
  assumes "extent_loop env k mapped slots i fi s = (r, fi', s')"
  shows "i \<le> i0 \<and> i0 < unat mapped \<and> i0 < length slots \<and> fm_blksz s \<noteq> 0
         \<and> fe_physical (slots ! i0) \<in> off ` set (fm_extents s)
     \<longrightarrow> returns_false r"
  using assms
proof (induction rule: extent_loop_rule)
  case (stop i fi s)
  then show ?case by auto
next
  case (fail i fi s)
  show ?case
  proof
    assume h: "i \<le> i0 \<and> i0 < unat mapped \<and> i0 < length slots \<and> fm_blksz s \<noteq> 0
         \<and> fe_physical (slots ! i0) \<in> off ` set (fm_extents s)"
    then have "i < length slots \<and> fm_blksz s \<noteq> 0" by simp
    with extent_body_no_guard [OF fail(2), of k fi]
    show "returns_false (fst (extent_body env k mapped slots i fi s))" by blast
  qed
next
  case (step i fi s r fi' s')
  show ?case
  proof
    assume h: "i \<le> i0 \<and> i0 < unat mapped \<and> i0 < length slots \<and> fm_blksz s \<noteq> 0
         \<and> fe_physical (slots ! i0) \<in> off ` set (fm_extents s)"
    from step.hyps(2) have "fe_physical (slots ! i) \<notin> off ` set (fm_extents s)"
      by (simp add: body_guard_def find_extent_None)
    with h have "i \<noteq> i0" by auto
    with h have "i + 1 \<le> i0" by simp
    with h step.IH show "returns_false r" by (simp add: step_globals_def)
  qed
qed

text \<open>The trace of the loop: nothing is closed, and a failure is recorded exactly when the
  loop returns \<^verbatim>\<open>false\<close>.\<close>

definition clean :: "event list \<Rightarrow> bool" where
  "clean evs = list_all (\<lambda>e. \<not> failure e) evs"

definition closes :: "event list \<Rightarrow> event list" where
  "closes evs = filter is_close evs"

lemma clean_append [simp]: "clean (xs @ ys) \<longleftrightarrow> clean xs \<and> clean ys"
  by (simp add: clean_def)

lemma closes_append [simp]: "closes (xs @ ys) = closes xs @ closes ys"
  by (simp add: closes_def)

lemma clean_simps [simp]:
  "clean []"
  "clean (Did c ok # evs) \<longleftrightarrow> ok \<and> clean evs"
  "clean (Close fd # evs) \<longleftrightarrow> clean evs"
  "clean (Diagnostic msg # evs) \<longleftrightarrow> False"
  by (simp_all add: clean_def failure_def)

lemma closes_simps [simp]:
  "closes [] = []"
  "closes (Did c ok # evs) = closes evs"
  "closes (Close fd # evs) = Close fd # closes evs"
  "closes (Diagnostic msg # evs) = closes evs"
  by (simp_all add: closes_def is_close_def)

lemma returns_false_simps [simp]:
  "\<not> returns_false RET_TRUE"
  "returns_false (RET_FALSE msg)"
  "\<not> returns_false (UNDEFINED u)"
  by (simp_all add: returns_false_def)

text \<open>What a call has added to the trace.\<close>

definition added :: "fm_globals \<Rightarrow> fm_globals \<Rightarrow> event list" where
  "added s s' = drop (length (trace s)) (trace s')"

definition extends :: "fm_globals \<Rightarrow> fm_globals \<Rightarrow> bool" where
  "extends s s' \<longleftrightarrow> take (length (trace s)) (trace s') = trace s"

lemma extends_added: "extends s s' \<Longrightarrow> trace s' = trace s @ added s s'"
  by (metis added_def append_take_drop_id extends_def)

lemma extends_refl [simp]: "extends s s" "added s s = []"
  by (simp_all add: extends_def added_def)

lemma extends_log [simp]: "extends s (log evs s)" "added s (log evs s) = evs"
  by (simp_all add: extends_def added_def log_def)

lemma extends_trans:
  assumes "extends s s1" "extends s1 s2"
  shows "extends s s2" and "added s s2 = added s s1 @ added s1 s2"
proof -
  define a b where "a = added s s1" and "b = added s1 s2"
  from assms have t: "trace s1 = trace s @ a" "trace s2 = (trace s @ a) @ b"
    by (simp_all add: extends_added a_def b_def)
  from t show "extends s s2" by (simp add: extends_def)
  from t have "added s s2 = a @ b" "added s s1 = a" "added s1 s2 = b"
    by (simp_all add: added_def)
  then show "added s s2 = added s s1 @ added s1 s2" by simp
qed

lemma extent_loop_trace:
  assumes "extent_loop env k mapped slots i fi s = (r, fi', s')"
  shows "extends s s' \<and> closes (added s s') = []
     \<and> (clean (added s s') \<longleftrightarrow> \<not> returns_false r)"
  using assms
proof (induction rule: extent_loop_rule)
  case (stop i fi s)
  show ?case by simp
next
  case (fail i fi s)
  let ?b = "extent_body env k mapped slots i fi s"
  from extent_body_no_guard [OF fail(2), of k fi] obtain evs where
    evs: "trace (snd (snd ?b)) = trace s @ evs" "\<forall>e \<in> set evs. \<not> is_close e"
      "(\<exists>e \<in> set evs. failure e) \<longleftrightarrow> returns_false (fst ?b)"
    by blast
  from evs(1) have "extends s (snd (snd ?b))" "added s (snd (snd ?b)) = evs"
    by (simp_all add: extends_def added_def)
  moreover from evs(2) have "closes evs = []" by (simp add: closes_def)
  moreover from evs(3) have "clean evs \<longleftrightarrow> \<not> returns_false (fst ?b)"
    by (auto simp: clean_def list_all_iff)
  ultimately show ?case by simp
next
  case (step i fi s r fi' s')
  have e: "extends s (step_globals k slots i s)"
    "added s (step_globals k slots i s) = [Did CALLOC True]"
    by (simp_all add: extends_def added_def step_globals_def)
  from step.IH have ih: "extends (step_globals k slots i s) s'"
    "closes (added (step_globals k slots i s) s') = []"
    "clean (added (step_globals k slots i s) s') \<longleftrightarrow> \<not> returns_false r"
    by simp_all
  from extends_trans [OF e(1) ih(1)] e(2) ih(2,3) show ?case by simp
qed

section \<open>Properties of one call of fm\_scan\_extents\<close>

lemma grow_buffer_cases:
  "grow_buffer env mapped s =
     (if fmh_extent_count s \<le> mapped \<and> \<not> realloc_ok env
      then (RET_FALSE MSG_REALLOC,
            s\<lparr>fmh_extent_count := new_capacity (fmh_extent_count s) mapped,
              trace := trace s @ [Did REALLOC False, Diagnostic MSG_REALLOC]\<rparr>)
      else (RET_TRUE,
            s\<lparr>fmh_extent_count := new_capacity (fmh_extent_count s) mapped,
              trace := trace s @ (if fmh_extent_count s \<le> mapped then [Did REALLOC True] else [])\<rparr>))"
  by (simp add: grow_buffer_def new_capacity_def fail_def log_def Let_def)

text \<open>The state in which the loop starts, and the inode that the query puts into the
  table when the loop has returned \<open>fi\<close>.\<close>

definition loop_start :: "u32 \<Rightarrow> fm_globals \<Rightarrow> fm_globals" where
  "loop_start mapped1 s =
     s\<lparr>fmh_extent_count := new_capacity (fmh_extent_count s) mapped1,
       trace := trace s @ [Did FS_IOC_FIEMAP True]
                @ (if fmh_extent_count s \<le> mapped1 then [Did REALLOC True] else [])
                @ [Did FS_IOC_FIEMAP True, Did CALLOC True]\<rparr>"

definition installed :: "stat \<Rightarrow> fm_inode \<Rightarrow> fm_globals \<Rightarrow> fm_globals" where
  "installed sb0 fi s =
     s\<lparr>fm_inodes := fm_inodes s @ [fi\<lparr>sb := sb0, inum := st_ino sb0\<rparr>],
       fm_extent_count := fm_extent_count s + extcount fi,
       fm_inode_count := fm_inode_count s + 1\<rparr>"

text \<open>The query reaches the loop under this condition, and only then.\<close>

definition reaches_loop :: "scan_env \<Rightarrow> fm_globals \<Rightarrow> u32 \<Rightarrow> u32 \<Rightarrow> fiemap_extent list \<Rightarrow> bool" where
  "reaches_loop env s mapped1 mapped slots \<longleftrightarrow>
     ioctl_count env = Some mapped1
     \<and> (fmh_extent_count s \<le> mapped1 \<longrightarrow> realloc_ok env)
     \<and> ioctl_map env = Some (mapped, slots)
     \<and> mapped \<noteq> new_capacity (fmh_extent_count s) mapped1
     \<and> calloc_inode_ok env"

lemma query_extents_loop:
  assumes "reaches_loop env s mapped1 mapped slots"
  shows "query_extents sb0 env s =
     (case extent_loop env (st_ino sb0) mapped slots 0 zero_inode (loop_start mapped1 s) of
        (RET_TRUE, fi, s3) \<Rightarrow> (RET_TRUE, installed sb0 fi s3)
      | (r, fi, s3) \<Rightarrow> (r, s3))"
  using assms
  by (simp add: reaches_loop_def query_extents_def grow_buffer_cases loop_start_def
      installed_def log_def Let_def split: prod.splits fm_ret.splits)

lemma query_extents_early:
  assumes "\<And>mapped1 mapped slots. \<not> reaches_loop env s mapped1 mapped slots"
  shows "returns_false (fst (query_extents sb0 env s))
     \<and> fm_extents (snd (query_extents sb0 env s)) = fm_extents s
     \<and> fm_inodes (snd (query_extents sb0 env s)) = fm_inodes s
     \<and> fm_extent_count (snd (query_extents sb0 env s)) = fm_extent_count s
     \<and> fm_inode_count (snd (query_extents sb0 env s)) = fm_inode_count s
     \<and> fm_file_count (snd (query_extents sb0 env s)) = fm_file_count s
     \<and> fm_dir_count (snd (query_extents sb0 env s)) = fm_dir_count s
     \<and> fm_blksz (snd (query_extents sb0 env s)) = fm_blksz s
     \<and> extends s (snd (query_extents sb0 env s))
     \<and> closes (added s (snd (query_extents sb0 env s))) = []
     \<and> \<not> clean (added s (snd (query_extents sb0 env s)))"
proof (cases "ioctl_count env")
  case None
  then show ?thesis
    by (simp add: query_extents_def fail_def log_def extends_def added_def)
next
  case c: (Some mapped1)
  show ?thesis
  proof (cases "fmh_extent_count s \<le> mapped1 \<and> \<not> realloc_ok env")
    case True
    with c show ?thesis
      by (simp add: query_extents_def grow_buffer_cases fail_def log_def extends_def added_def)
  next
    case g: False
    show ?thesis
    proof (cases "ioctl_map env")
      case None
      with c g show ?thesis
        by (simp add: query_extents_def grow_buffer_cases fail_def log_def extends_def added_def)
    next
      case (Some p)
      obtain mapped slots where p: "p = (mapped, slots)" by (cases p)
      from assms [of mapped1 mapped slots] c g Some p
      have "mapped = new_capacity (fmh_extent_count s) mapped1 \<or> \<not> calloc_inode_ok env"
        by (auto simp: reaches_loop_def)
      with c g Some p show ?thesis
        by (auto simp: query_extents_def grow_buffer_cases fail_def log_def extends_def added_def
            Let_def)
    qed
  qed
qed

lemma reaches_loop_unique:
  assumes "reaches_loop env s mapped1 mapped slots" "reaches_loop env s m1 m sl"
  shows "m1 = mapped1" "m = mapped" "sl = slots"
  using assms by (simp_all add: reaches_loop_def)

lemma loop_start_fields [simp]:
  "fm_extents (loop_start mapped1 s) = fm_extents s"
  "fm_inodes (loop_start mapped1 s) = fm_inodes s"
  "fm_extent_count (loop_start mapped1 s) = fm_extent_count s"
  "fm_inode_count (loop_start mapped1 s) = fm_inode_count s"
  "fm_file_count (loop_start mapped1 s) = fm_file_count s"
  "fm_dir_count (loop_start mapped1 s) = fm_dir_count s"
  "fm_blksz (loop_start mapped1 s) = fm_blksz s"
  "extends s (loop_start mapped1 s)"
  "closes (added s (loop_start mapped1 s)) = []"
  "clean (added s (loop_start mapped1 s))"
  by (simp_all add: loop_start_def extends_def added_def)

lemma installed_fields [simp]:
  "fm_extents (installed sb0 fi s) = fm_extents s"
  "fm_inodes (installed sb0 fi s) = fm_inodes s @ [fi\<lparr>sb := sb0, inum := st_ino sb0\<rparr>]"
  "fm_extent_count (installed sb0 fi s) = fm_extent_count s + extcount fi"
  "fm_inode_count (installed sb0 fi s) = fm_inode_count s + 1"
  "fm_file_count (installed sb0 fi s) = fm_file_count s"
  "fm_dir_count (installed sb0 fi s) = fm_dir_count s"
  "fm_blksz (installed sb0 fi s) = fm_blksz s"
  "trace (installed sb0 fi s) = trace s"
  by (simp_all add: installed_def)

text \<open>What a query that returns \<^verbatim>\<open>true\<close> has done.\<close>

lemma query_extents_true:
  assumes q: "query_extents sb0 env s = (RET_TRUE, s')"
  shows "\<exists>mapped1 mapped slots fi s3.
     reaches_loop env s mapped1 mapped slots
     \<and> extent_loop env (st_ino sb0) mapped slots 0 zero_inode (loop_start mapped1 s)
         = (RET_TRUE, fi, s3)
     \<and> s' = installed sb0 fi s3"
proof (cases "\<exists>mapped1 mapped slots. reaches_loop env s mapped1 mapped slots")
  case False
  with query_extents_early [of env s sb0] q show ?thesis by auto
next
  case True
  then obtain mapped1 mapped slots where rl: "reaches_loop env s mapped1 mapped slots" by blast
  obtain r fi s3 where
    l: "extent_loop env (st_ino sb0) mapped slots 0 zero_inode (loop_start mapped1 s) = (r, fi, s3)"
    by (metis prod_cases3)
  from q l have "r = RET_TRUE \<and> s' = installed sb0 fi s3"
    by (cases r) (simp_all add: query_extents_loop [OF rl])
  with rl l show ?thesis by blast
qed

text \<open>What a query that does not return \<^verbatim>\<open>true\<close> leaves behind.\<close>

lemma query_extents_other:
  assumes q: "query_extents sb0 env s = (r, s')" and r: "r \<noteq> RET_TRUE"
  shows "fm_inodes s' = fm_inodes s \<and> fm_extent_count s' = fm_extent_count s
     \<and> fm_inode_count s' = fm_inode_count s \<and> fm_file_count s' = fm_file_count s
     \<and> fm_dir_count s' = fm_dir_count s \<and> fm_blksz s' = fm_blksz s"
proof (cases "\<exists>mapped1 mapped slots. reaches_loop env s mapped1 mapped slots")
  case False
  with query_extents_early [of env s sb0] q show ?thesis by auto
next
  case True
  then obtain mapped1 mapped slots where rl: "reaches_loop env s mapped1 mapped slots" by blast
  obtain r1 fi s3 where
    l: "extent_loop env (st_ino sb0) mapped slots 0 zero_inode (loop_start mapped1 s) = (r1, fi, s3)"
    by (metis prod_cases3)
  from q l r have "s' = s3"
    by (cases r1) (auto simp: query_extents_loop [OF rl])
  with extent_loop_frame [OF l] show ?thesis by simp
qed

lemma query_extents_extents:
  assumes q: "query_extents sb0 env s = (r, s')"
  shows "(\<exists>new. fm_extents s' = fm_extents s @ new \<and> (\<forall>e \<in> set new. inode e = st_ino sb0))
     \<and> (distinct (map off (fm_extents s)) \<longrightarrow> distinct (map off (fm_extents s')))"
proof (cases "\<exists>mapped1 mapped slots. reaches_loop env s mapped1 mapped slots")
  case False
  with query_extents_early [of env s sb0] q show ?thesis by auto
next
  case True
  then obtain mapped1 mapped slots where rl: "reaches_loop env s mapped1 mapped slots" by blast
  obtain r1 fi s3 where
    l: "extent_loop env (st_ino sb0) mapped slots 0 zero_inode (loop_start mapped1 s) = (r1, fi, s3)"
    by (metis prod_cases3)
  from q l have "fm_extents s' = fm_extents s3"
    by (cases r1) (auto simp: query_extents_loop [OF rl])
  with extent_loop_extents [OF l] show ?thesis by simp
qed

lemma query_extents_trace:
  assumes q: "query_extents sb0 env s = (r, s')"
  shows "extends s s' \<and> closes (added s s') = [] \<and> (clean (added s s') \<longleftrightarrow> \<not> returns_false r)"
proof (cases "\<exists>mapped1 mapped slots. reaches_loop env s mapped1 mapped slots")
  case False
  with query_extents_early [of env s sb0] q show ?thesis by auto
next
  case True
  then obtain mapped1 mapped slots where rl: "reaches_loop env s mapped1 mapped slots" by blast
  obtain r1 fi s3 where
    l: "extent_loop env (st_ino sb0) mapped slots 0 zero_inode (loop_start mapped1 s) = (r1, fi, s3)"
    by (metis prod_cases3)
  from q l have "r = r1 \<and> trace s' = trace s3"
    by (cases r1) (auto simp: query_extents_loop [OF rl])
  then have e: "r = r1" "extends s s' = extends s s3" "added s s' = added s s3"
    by (simp_all add: extends_def added_def)
  from extent_loop_trace [OF l] have t: "extends (loop_start mapped1 s) s3"
    "closes (added (loop_start mapped1 s) s3) = []"
    "clean (added (loop_start mapped1 s) s3) \<longleftrightarrow> \<not> returns_false r1"
    by simp_all
  have "extends s (loop_start mapped1 s)" by simp
  from extends_trans [OF this t(1)] t(2,3) show ?thesis unfolding e by simp
qed

section \<open>Properties of the name list\<close>

definition names_sorted :: "string list \<Rightarrow> bool" where
  "names_sorted ns = sorted_wrt (\<lambda>a b. strcmp a b \<le> 0) ns"

lemma strcmp_refl [simp]: "strcmp a a = 0"
  by (induction a) simp_all

lemma strcmp_trans: "strcmp a b \<le> 0 \<Longrightarrow> strcmp b c \<le> 0 \<Longrightarrow> strcmp a c \<le> 0"
proof (induction a b arbitrary: c rule: strcmp.induct)
  case 1
  then show ?case by simp
next
  case (2 y ys)
  then show ?case by (cases c) simp_all
next
  case (3 x xs)
  then have "of_char x = (0 :: nat)" by simp
  with 3 show ?case by (cases c) (auto split: if_splits)
next
  case (4 x xs y ys)
  have inj: "\<And>u v :: char. (of_char u :: nat) = of_char v \<longleftrightarrow> u = v" by simp
  show ?case
  proof (cases c)
    case Nil
    with 4 inj [of x y] show ?thesis by (auto split: if_splits)
  next
    case (Cons z zs)
    show ?thesis
    proof (cases "x = y")
      case True
      with 4 Cons show ?thesis by (auto split: if_splits)
    next
      case False
      with 4 Cons inj [of x y] inj [of y z] inj [of x z] show ?thesis
        by (auto split: if_splits)
    qed
  qed
qed

lemma filename_cb_le: "fm_sortby_filename_cb a b \<le> 0 \<longleftrightarrow> strcmp a b \<le> 0"
  by (simp add: fm_sortby_filename_cb_def three_way_def)

lemma set_sort_insert [simp]: "set (sort_insert c x ys) = insert x (set ys)"
  by (induction ys) auto

lemma mset_sort_insert [simp]: "mset (sort_insert c x ys) = add_mset x (mset ys)"
  by (induction ys) auto

lemma mset_DL_SORT [simp]: "mset (DL_SORT c xs) = mset xs"
  by (induction xs) (simp_all add: DL_SORT_def)

lemma sorted_sort_insert:
  "names_sorted ys \<Longrightarrow> names_sorted (sort_insert fm_sortby_filename_cb x ys)"
proof (induction ys)
  case Nil
  then show ?case by (simp add: names_sorted_def)
next
  case (Cons y ys)
  show ?case
  proof (cases "strcmp x y \<le> 0")
    case True
    with Cons.prems strcmp_trans [of x y] show ?thesis
      by (auto simp: names_sorted_def filename_cb_le)
  next
    case False
    with strcmp_swap [of y x] have yx: "strcmp y x \<le> 0" by simp
    from Cons have "names_sorted (sort_insert fm_sortby_filename_cb x ys)"
      by (simp add: names_sorted_def)
    with Cons.prems False yx show ?thesis
      by (auto simp: names_sorted_def filename_cb_le)
  qed
qed

lemma sorted_DL_SORT: "names_sorted (DL_SORT fm_sortby_filename_cb xs)"
proof (induction xs)
  case Nil
  show ?case by (simp add: DL_SORT_def names_sorted_def)
next
  case (Cons x xs)
  then show ?case using sorted_sort_insert [of "DL_SORT fm_sortby_filename_cb xs" x]
    by (simp add: DL_SORT_def)
qed

lemma names_sorted_hd:
  "names_sorted ns \<Longrightarrow> n \<in> set ns \<Longrightarrow> strcmp (hd ns) n \<le> 0"
  by (cases ns) (auto simp: names_sorted_def)

lemma append_name_facts:
  "names_sorted (names (append_name n fi))"
  "mset (names (append_name n fi)) = add_mset n (mset (names fi))"
  "namecount (append_name n fi) = namecount fi + 1"
  "inum (append_name n fi) = inum fi"
  "extcount (append_name n fi) = extcount fi"
  "iflags (append_name n fi) = iflags fi"
  "sb (append_name n fi) = sb fi"
  by (simp_all add: append_name_def sorted_DL_SORT)

section \<open>Properties of the table of inodes\<close>

lemma find_inode_None: "find_inode tbl k = None \<longleftrightarrow> k \<notin> inum ` set tbl"
  by (auto simp: find_inode_def find_None_iff)

lemma find_inode_Some: "find_inode tbl k = Some fi \<Longrightarrow> fi \<in> set tbl \<and> inum fi = k"
  by (auto simp: find_inode_def find_Some_iff)

lemma find_inode_append:
  "find_inode (tbl @ [x]) k =
     (case find_inode tbl k of Some y \<Rightarrow> Some y | None \<Rightarrow> if inum x = k then Some x else None)"
  by (induction tbl) (simp_all add: find_inode_def)

lemma update_inode_absent: "find_inode tbl k = None \<Longrightarrow> update_inode k f tbl = tbl"
  by (induction tbl) (simp_all add: find_inode_def split: if_splits)

lemma update_inode_append:
  "find_inode tbl k = None \<Longrightarrow> inum x = k \<Longrightarrow> update_inode k f (tbl @ [x]) = tbl @ [f x]"
  by (induction tbl) (simp_all add: find_inode_def split: if_splits)

lemma find_inode_update:
  assumes "\<And>x. inum (f x) = inum x"
  shows "find_inode (update_inode k f tbl) j =
     (if j = k then map_option f (find_inode tbl k) else find_inode tbl j)"
  using assms by (induction tbl) (auto simp: find_inode_def)

lemma map_inum_update:
  assumes "\<And>x. inum (f x) = inum x"
  shows "map inum (update_inode k f tbl) = map inum tbl"
  using assms by (induction tbl) auto

lemma filter_update_other:
  assumes "\<And>x. inum (f x) = inum x"
  shows "j \<noteq> k \<Longrightarrow>
    filter (\<lambda>fi. inum fi = j) (update_inode k f tbl) = filter (\<lambda>fi. inum fi = j) tbl"
  using assms by (induction tbl) auto

lemma set_update_inode: "set (update_inode k f tbl) \<subseteq> set tbl \<union> f ` set tbl"
  by (induction tbl) auto

lemma length_update_inode [simp]: "length (update_inode k f tbl) = length tbl"
  by (induction tbl) auto

section \<open>Properties of the whole call\<close>

text \<open>The global variables after lines 165 to 191 have run to the end.\<close>

definition named :: "int \<Rightarrow> stat \<Rightarrow> string \<Rightarrow> fm_globals \<Rightarrow> fm_globals" where
  "named fd sb0 abspath s =
     s\<lparr>fm_dir_count := (if is_dir sb0 then fm_dir_count s + 1 else fm_dir_count s),
       fm_file_count := (if is_dir sb0 then fm_file_count s else fm_file_count s + 1),
       fm_inodes := update_inode (st_ino sb0) (append_name (new_name sb0 abspath)) (fm_inodes s),
       trace := trace s @ [Did CALLOC True, Close fd]\<rparr>"

lemma add_name_cases:
  "add_name fd sb0 abspath env s =
     (if calloc_name_ok env then (RET_TRUE, named fd sb0 abspath s)
      else (RET_FALSE MSG_CALLOC, log [Did CALLOC False, Diagnostic MSG_CALLOC] s))"
  by (simp add: add_name_def named_def fail_def log_def Let_def)

lemma named_fields [simp]:
  "fm_extents (named fd sb0 abspath s) = fm_extents s"
  "fm_inodes (named fd sb0 abspath s) =
     update_inode (st_ino sb0) (append_name (new_name sb0 abspath)) (fm_inodes s)"
  "fm_extent_count (named fd sb0 abspath s) = fm_extent_count s"
  "fm_inode_count (named fd sb0 abspath s) = fm_inode_count s"
  "fm_blksz (named fd sb0 abspath s) = fm_blksz s"
  "fmh_extent_count (named fd sb0 abspath s) = fmh_extent_count s"
  "extends s (named fd sb0 abspath s)"
  "added s (named fd sb0 abspath s) = [Did CALLOC True, Close fd]"
  by (simp_all add: named_def extends_def added_def)

lemma log_fields [simp]:
  "fm_extents (log evs s) = fm_extents s"
  "fm_inodes (log evs s) = fm_inodes s"
  "fm_extent_count (log evs s) = fm_extent_count s"
  "fm_inode_count (log evs s) = fm_inode_count s"
  "fm_file_count (log evs s) = fm_file_count s"
  "fm_dir_count (log evs s) = fm_dir_count s"
  "fm_blksz (log evs s) = fm_blksz s"
  "fmh_extent_count (log evs s) = fmh_extent_count s"
  "trace (log evs s) = trace s @ evs"
  by (simp_all add: log_def)

text \<open>The three ways through \<^verbatim>\<open>fm_scan_extents\<close>: the inode is in the table; it is not
  and the query returns \<^verbatim>\<open>true\<close>; it is not and the query does not.\<close>

lemma fm_scan_extents_present:
  "find_inode (fm_inodes s) (st_ino sb0) = Some fi \<Longrightarrow>
     fm_scan_extents fd sb0 abspath env s = add_name fd sb0 abspath env s"
  by (simp add: fm_scan_extents_def)

lemma fm_scan_extents_new_true:
  "find_inode (fm_inodes s) (st_ino sb0) = None \<Longrightarrow> query_extents sb0 env s = (RET_TRUE, s1) \<Longrightarrow>
     fm_scan_extents fd sb0 abspath env s = add_name fd sb0 abspath env s1"
  by (simp add: fm_scan_extents_def)

lemma fm_scan_extents_new_other:
  "find_inode (fm_inodes s) (st_ino sb0) = None \<Longrightarrow> query_extents sb0 env s = (r, s1) \<Longrightarrow>
     r \<noteq> RET_TRUE \<Longrightarrow> fm_scan_extents fd sb0 abspath env s = (r, s1)"
  by (cases r) (simp_all add: fm_scan_extents_def)

text \<open>A case analysis of a call, for the proofs below.\<close>

lemma fm_scan_extents_cases [consumes 1, case_names present_ok present_fail new_ok new_fail new_other]:
  assumes run: "fm_scan_extents fd sb0 abspath env s = (r, s')"
    and "\<And>fi. find_inode (fm_inodes s) (st_ino sb0) = Some fi \<Longrightarrow> calloc_name_ok env \<Longrightarrow>
           r = RET_TRUE \<Longrightarrow> s' = named fd sb0 abspath s \<Longrightarrow> P"
    and "\<And>fi. find_inode (fm_inodes s) (st_ino sb0) = Some fi \<Longrightarrow> \<not> calloc_name_ok env \<Longrightarrow>
           r = RET_FALSE MSG_CALLOC \<Longrightarrow>
           s' = log [Did CALLOC False, Diagnostic MSG_CALLOC] s \<Longrightarrow> P"
    and "\<And>s1. find_inode (fm_inodes s) (st_ino sb0) = None \<Longrightarrow>
           query_extents sb0 env s = (RET_TRUE, s1) \<Longrightarrow> calloc_name_ok env \<Longrightarrow>
           r = RET_TRUE \<Longrightarrow> s' = named fd sb0 abspath s1 \<Longrightarrow> P"
    and "\<And>s1. find_inode (fm_inodes s) (st_ino sb0) = None \<Longrightarrow>
           query_extents sb0 env s = (RET_TRUE, s1) \<Longrightarrow> \<not> calloc_name_ok env \<Longrightarrow>
           r = RET_FALSE MSG_CALLOC \<Longrightarrow>
           s' = log [Did CALLOC False, Diagnostic MSG_CALLOC] s1 \<Longrightarrow> P"
    and "find_inode (fm_inodes s) (st_ino sb0) = None \<Longrightarrow>
           query_extents sb0 env s = (r, s') \<Longrightarrow> r \<noteq> RET_TRUE \<Longrightarrow> P"
  shows P
proof (cases "find_inode (fm_inodes s) (st_ino sb0)")
  case (Some fi)
  with run have "add_name fd sb0 abspath env s = (r, s')" by (simp add: fm_scan_extents_present)
  with Some assms(2,3) show P by (cases "calloc_name_ok env") (auto simp: add_name_cases)
next
  case None
  obtain r1 s1 where q: "query_extents sb0 env s = (r1, s1)" by (cases "query_extents sb0 env s")
  show P
  proof (cases "r1 = RET_TRUE")
    case True
    with run None q have "add_name fd sb0 abspath env s1 = (r, s')"
      by (simp add: fm_scan_extents_new_true)
    with None q True assms(4,5) show P by (cases "calloc_name_ok env") (auto simp: add_name_cases)
  next
    case False
    with run None q have "r = r1 \<and> s' = s1" by (simp add: fm_scan_extents_new_other)
    with None q False assms(6) show P by simp
  qed
qed

text \<open>The trace of a call: it extends the trace; the descriptor is closed, once, exactly when
  the call returns \<^verbatim>\<open>true\<close>, and nothing else is closed; a failure is recorded exactly when
  the call returns \<^verbatim>\<open>false\<close>.\<close>

lemma fm_scan_extents_trace:
  assumes "fm_scan_extents fd sb0 abspath env s = (r, s')"
  shows "extends s s'
     \<and> closes (added s s') = (if r = RET_TRUE then [Close fd] else [])
     \<and> (clean (added s s') \<longleftrightarrow> \<not> returns_false r)"
  using assms
proof (cases rule: fm_scan_extents_cases)
  case (present_ok fi)
  then show ?thesis by simp
next
  case (present_fail fi)
  then show ?thesis by simp
next
  case (new_ok s1)
  from query_extents_trace [OF new_ok(2)] have q: "extends s s1" "closes (added s s1) = []"
    "clean (added s s1)" by simp_all
  have "extends s1 (named fd sb0 abspath s1)" by simp
  from extends_trans [OF q(1) this] q(2,3) new_ok(4,5) show ?thesis by simp
next
  case (new_fail s1)
  from query_extents_trace [OF new_fail(2)] have q: "extends s s1" "closes (added s s1) = []"
    by simp_all
  have "extends s1 (log [Did CALLOC False, Diagnostic MSG_CALLOC] s1)" by simp
  from extends_trans [OF q(1) this] q(2) new_fail(4,5) show ?thesis by simp
next
  case new_other
  from query_extents_trace [OF new_other(2)] new_other(3) show ?thesis by simp
qed

text \<open>The table of extents after a call: the old table, then extents of this inode; the
  offsets stay distinct.\<close>

lemma fm_scan_extents_extents:
  assumes "fm_scan_extents fd sb0 abspath env s = (r, s')"
  shows "(\<exists>new. fm_extents s' = fm_extents s @ new \<and> (\<forall>e \<in> set new. inode e = st_ino sb0))
     \<and> (distinct (map off (fm_extents s)) \<longrightarrow> distinct (map off (fm_extents s')))"
  using assms
proof (cases rule: fm_scan_extents_cases)
  case (present_ok fi)
  then show ?thesis by simp
next
  case (present_fail fi)
  then show ?thesis by simp
next
  case (new_ok s1)
  with query_extents_extents [OF new_ok(2)] show ?thesis by simp
next
  case (new_fail s1)
  with query_extents_extents [OF new_fail(2)] show ?thesis by simp
next
  case new_other
  with query_extents_extents [OF new_other(2)] show ?thesis by simp
qed

lemma fm_scan_extents_blksz:
  assumes "fm_scan_extents fd sb0 abspath env s = (r, s')"
  shows "fm_blksz s' = fm_blksz s"
  using assms
proof (cases rule: fm_scan_extents_cases)
  case (new_ok s1)
  from query_extents_true [OF new_ok(2)] obtain mapped1 mapped slots fi s3 where
    "extent_loop env (st_ino sb0) mapped slots 0 zero_inode (loop_start mapped1 s) = (RET_TRUE, fi, s3)"
    "s1 = installed sb0 fi s3" by blast
  with extent_loop_frame [OF this(1)] new_ok show ?thesis by simp
next
  case (new_fail s1)
  from query_extents_true [OF new_fail(2)] obtain mapped1 mapped slots fi s3 where
    "extent_loop env (st_ino sb0) mapped slots 0 zero_inode (loop_start mapped1 s) = (RET_TRUE, fi, s3)"
    "s1 = installed sb0 fi s3" by blast
  with extent_loop_frame [OF this(1)] new_fail show ?thesis by simp
next
  case new_other
  with query_extents_other [OF new_other(2,3)] show ?thesis by simp
qed simp_all

section \<open>Properties of the extent query\<close>

lemma no_slack: "(n :: u32) mod 256 = 0 \<Longrightarrow> n + ((n + 256) mod 256) = n"
proof -
  assume h: "n mod 256 = 0"
  then have u: "unat n mod 256 = 0" by (simp add: unat_mod flip: unat_eq_0)
  have "unat ((n + 256) mod 256) = ((unat n + 256) mod 2 ^ 32) mod 256"
    by (simp add: unat_mod unat_word_ariths)
  also have "\<dots> = (unat n + 256) mod 256"
    by (rule mod_mod_cancel) simp
  also have "\<dots> = 0" using u by simp
  finally have "(n + 256) mod 256 = 0" by (simp add: unat_eq_0)
  then show ?thesis by simp
qed

lemma query_truncated:
  assumes "ioctl_count env = Some mapped1"
      and "fmh_extent_count s \<le> mapped1 \<longrightarrow> realloc_ok env"
      and "ioctl_map env = Some (mapped, slots)"
      and "mapped = new_capacity (fmh_extent_count s) mapped1"
  shows "query_extents sb0 env s =
     (RET_FALSE MSG_TRUNCATED,
      s\<lparr>fmh_extent_count := new_capacity (fmh_extent_count s) mapped1,
        trace := trace s @ [Did FS_IOC_FIEMAP True] @
                 (if fmh_extent_count s \<le> mapped1 then [Did REALLOC True] else []) @
                 [Did FS_IOC_FIEMAP True, Diagnostic MSG_TRUNCATED]\<rparr>)"
  using assms
  by (simp add: query_extents_def grow_buffer_def new_capacity_def fail_def log_def Let_def)

text \<open>
  Claim C9. In a first-time extent query (the inode number is not in the table), when the
  second \<^verbatim>\<open>FS_IOC_FIEMAP\<close> reports as many mapped extents as the capacity it was given,
  \<^verbatim>\<open>fm_scan_extents\<close> prints the truncation diagnostic and returns \<^verbatim>\<open>false\<close>; neither the
  inode nor any extent has been put into the tables, and the counters of inodes and extents
  are unchanged.
\<close>

theorem fm_scan_extents_truncated_batch:
  assumes new: "find_inode (fm_inodes s) (st_ino sb0) = None"
      and first: "ioctl_count env = Some mapped1"
      and grown: "fmh_extent_count s \<le> mapped1 \<longrightarrow> realloc_ok env"
      and second: "ioctl_map env = Some (mapped, slots)"
      and full: "mapped = new_capacity (fmh_extent_count s) mapped1"
  shows "fst (fm_scan_extents fd sb0 abspath env s) = RET_FALSE MSG_TRUNCATED
       \<and> fm_inodes (snd (fm_scan_extents fd sb0 abspath env s)) = fm_inodes s
       \<and> fm_extents (snd (fm_scan_extents fd sb0 abspath env s)) = fm_extents s
       \<and> fm_inode_count (snd (fm_scan_extents fd sb0 abspath env s)) = fm_inode_count s
       \<and> fm_extent_count (snd (fm_scan_extents fd sb0 abspath env s)) = fm_extent_count s"
proof -
  from query_truncated [OF first grown second full, of sb0]
  show ?thesis using new by (simp add: fm_scan_extents_def)
qed

theorem fm_scan_extents_truncated_batch_witness:
  "find_inode (fm_inodes globals_4096) (st_ino sb_file) = None
   \<and> ioctl_count (env_ok 1 2 [slot 0 0, slot 4096 0]) = Some 1
   \<and> ioctl_map (env_ok 1 2 [slot 0 0, slot 4096 0]) = Some (2, [slot 0 0, slot 4096 0])
   \<and> new_capacity (fmh_extent_count globals_4096) 1 = 2
   \<and> fst (fm_scan_extents 3 sb_file ''/a'' (env_ok 1 2 [slot 0 0, slot 4096 0]) globals_4096)
       = RET_FALSE MSG_TRUNCATED
   \<and> fm_inodes (snd (fm_scan_extents 3 sb_file ''/a'' (env_ok 1 2 [slot 0 0, slot 4096 0])
       globals_4096)) = []
   \<and> fm_extents (snd (fm_scan_extents 3 sb_file ''/a'' (env_ok 1 2 [slot 0 0, slot 4096 0])
       globals_4096)) = []"
proof -
  let ?env = "env_ok 1 2 [slot 0 0, slot 4096 0]"
  have new: "find_inode (fm_inodes globals_4096) (st_ino sb_file) = None"
    by (simp add: globals_4096_def initial_globals_def find_inode_def)
  have first: "ioctl_count ?env = Some 1" by (simp add: env_ok_def)
  have grown: "fmh_extent_count globals_4096 \<le> 1 \<longrightarrow> realloc_ok ?env" by (simp add: env_ok_def)
  have second: "ioctl_map ?env = Some (2, [slot 0 0, slot 4096 0])" by (simp add: env_ok_def)
  have cap: "new_capacity (fmh_extent_count globals_4096) 1 = 2"
    by (simp add: new_capacity_def globals_4096_def initial_globals_def)
  have tbl: "fm_inodes globals_4096 = []" "fm_extents globals_4096 = []"
    by (simp_all add: globals_4096_def initial_globals_def)
  from fm_scan_extents_truncated_batch [OF new first grown second cap [symmetric], of 3 "''/a''"]
  show ?thesis using new first second cap tbl by simp
qed

text \<open>
  Claim C10. In a first-time extent query, when the count that the first \<^verbatim>\<open>FS_IOC_FIEMAP\<close>
  reports is a multiple of 256 (0 included) and is at least the capacity of the scratch
  buffer, the growth formula adds no slack: the new capacity is the reported count. When the
  second \<^verbatim>\<open>FS_IOC_FIEMAP\<close> then reports that count again, whatever slots it has written (a
  complete map ending with the marker of the last extent included), \<^verbatim>\<open>fm_scan_extents\<close>
  prints the truncation diagnostic and returns \<^verbatim>\<open>false\<close>, and the tables are unchanged.
\<close>

theorem fm_scan_extents_multiple_of_256:
  assumes new: "find_inode (fm_inodes s) (st_ino sb0) = None"
      and first: "ioctl_count env = Some n"
      and multiple: "n mod 256 = 0"
      and at_least: "fmh_extent_count s \<le> n"
      and grown: "realloc_ok env"
      and second: "ioctl_map env = Some (n, slots)"
  shows "new_capacity (fmh_extent_count s) n = n
       \<and> fst (fm_scan_extents fd sb0 abspath env s) = RET_FALSE MSG_TRUNCATED
       \<and> fm_inodes (snd (fm_scan_extents fd sb0 abspath env s)) = fm_inodes s
       \<and> fm_extents (snd (fm_scan_extents fd sb0 abspath env s)) = fm_extents s
       \<and> fmh_extent_count (snd (fm_scan_extents fd sb0 abspath env s)) = n"
proof -
  have cap: "new_capacity (fmh_extent_count s) n = n"
    using at_least no_slack [OF multiple] by (simp add: new_capacity_def)
  have "fmh_extent_count s \<le> n \<longrightarrow> realloc_ok env" using grown by simp
  from query_truncated [OF first this second cap [symmetric], of sb0]
  show ?thesis using new cap by (simp add: fm_scan_extents_def)
qed

theorem fm_scan_extents_multiple_of_256_witness:
  "find_inode (fm_inodes globals_4096) (st_ino sb_file) = None
   \<and> (256 :: u32) mod 256 = 0 \<and> (0 :: u32) mod 256 = 0
   \<and> length map_256 = 256
   \<and> fe_flags (last map_256) AND FIEMAP_EXTENT_LAST \<noteq> 0
   \<and> fst (fm_scan_extents 3 sb_file ''/a'' (env_ok 256 256 map_256) globals_4096)
       = RET_FALSE MSG_TRUNCATED
   \<and> fst (fm_scan_extents 3 sb_file ''/a'' (env_ok 0 0 []) globals_4096)
       = RET_FALSE MSG_TRUNCATED"
proof -
  have new: "find_inode (fm_inodes globals_4096) (st_ino sb_file) = None"
    by (simp add: globals_4096_def initial_globals_def find_inode_def)
  have cap0: "fmh_extent_count globals_4096 \<le> 256" "fmh_extent_count globals_4096 \<le> 0"
    by (simp_all add: globals_4096_def initial_globals_def)
  have m: "(256 :: u32) mod 256 = 0" "(0 :: u32) mod 256 = 0" by simp_all
  have a: "fst (fm_scan_extents 3 sb_file ''/a'' (env_ok 256 256 map_256) globals_4096)
       = RET_FALSE MSG_TRUNCATED"
    using fm_scan_extents_multiple_of_256 [OF new _ m(1) cap0(1), of "env_ok 256 256 map_256" map_256 3 "''/a''"]
    by (simp add: env_ok_def)
  have b: "fst (fm_scan_extents 3 sb_file ''/a'' (env_ok 0 0 []) globals_4096)
       = RET_FALSE MSG_TRUNCATED"
    using fm_scan_extents_multiple_of_256 [OF new _ m(2) cap0(2), of "env_ok 0 0 []" "[]" 3 "''/a''"]
    by (simp add: env_ok_def)
  have l: "length map_256 = 256" by (simp add: map_256_def)
  have "last map_256 = slot (4096 * 255) 1"
    by (simp add: map_256_def last_map)
  then have f: "fe_flags (last map_256) AND FIEMAP_EXTENT_LAST \<noteq> 0"
    by (simp add: slot_def FIEMAP_EXTENT_LAST_def)
  from new m l f a b show ?thesis by simp
qed

lemma new_inode_result:
  assumes new: "find_inode (fm_inodes s) (st_ino sb0) = None"
    and run: "fm_scan_extents fd sb0 abspath env s = (RET_TRUE, s')"
  obtains mapped1 mapped slots fi3 s3 where
    "reaches_loop env s mapped1 mapped slots"
    "extent_loop env (st_ino sb0) mapped slots 0 zero_inode (loop_start mapped1 s)
       = (RET_TRUE, fi3, s3)"
    "s' = named fd sb0 abspath (installed sb0 fi3 s3)"
    "fm_inodes s' = fm_inodes s @
       [append_name (new_name sb0 abspath) (fi3\<lparr>sb := sb0, inum := st_ino sb0\<rparr>)]"
  using run
proof (cases rule: fm_scan_extents_cases)
  case (present_ok fi)
  with new show ?thesis by simp
next
  case (new_ok s1)
  from query_extents_true [OF new_ok(2)] obtain mapped1 mapped slots fi3 s3 where
    q: "reaches_loop env s mapped1 mapped slots"
    "extent_loop env (st_ino sb0) mapped slots 0 zero_inode (loop_start mapped1 s)
       = (RET_TRUE, fi3, s3)"
    "s1 = installed sb0 fi3 s3" by blast
  from extent_loop_frame [OF q(2)] have "fm_inodes s3 = fm_inodes s" by simp
  with new q(3) new_ok(5) have "fm_inodes s' = fm_inodes s @
       [append_name (new_name sb0 abspath) (fi3\<lparr>sb := sb0, inum := st_ino sb0\<rparr>)]"
    by (simp add: update_inode_append)
  with q new_ok(5) show ?thesis using that by blast
qed simp_all

text \<open>
  Claim C5, as amended. \<^verbatim>\<open>fm_scan_extents\<close> (which never calls itself) closes the descriptor
  it was given exactly when it returns \<^verbatim>\<open>true\<close>, once, and closes nothing else; on every
  path on which it does not return \<^verbatim>\<open>true\<close> it closes nothing.
\<close>

theorem fm_scan_extents_closes_on_success:
  "extends s (snd (fm_scan_extents fd sb0 abspath env s))
   \<and> closes (added s (snd (fm_scan_extents fd sb0 abspath env s)))
       = (if fst (fm_scan_extents fd sb0 abspath env s) = RET_TRUE then [Close fd] else [])"
  using fm_scan_extents_trace [of fd sb0 abspath env s
      "fst (fm_scan_extents fd sb0 abspath env s)" "snd (fm_scan_extents fd sb0 abspath env s)"]
  by simp

text \<open>
  Claim C5, as stated, fails: when the first \<^verbatim>\<open>FS_IOC_FIEMAP\<close> fails on the descriptor 3,
  the call returns \<^verbatim>\<open>false\<close> and the descriptor 3 has not been closed.
\<close>

theorem fm_scan_extents_failure_leaves_open:
  "fst (fm_scan_extents 3 sb_file ''/a'' env_ioctl_fails globals_4096) = RET_FALSE MSG_IOCTL_FIEMAP
   \<and> Close 3 \<notin> set (trace (snd (fm_scan_extents 3 sb_file ''/a'' env_ioctl_fails globals_4096)))"
  by (simp add: fm_scan_extents_def query_extents_def fail_def log_def env_ioctl_fails_def
      globals_4096_def initial_globals_def find_inode_def)

section \<open>The classification of a new inode\<close>

lemma fragmented_has_flag: "fragmented fi = has_flag (iflags fi) FM_IFLAGS_FRAGMENTED"
  and unordered_has_flag: "unordered fi = has_flag (iflags fi) FM_IFLAGS_UNORDERED"
  by (simp_all add: fragmented_def unordered_def has_flag_def)

lemma word_gap_of_nat_gap:
  fixes a b c :: u64
  assumes "unat b + unat c < unat a"
  shows "b + c < a"
proof -
  have "unat (b + c) \<le> unat b + unat c" by (simp add: unat_word_ariths)
  with assms show ?thesis by (simp add: word_less_nat_alt)
qed

text \<open>
  Claim C1. For an inode that \<^verbatim>\<open>fm_scan_extents\<close> has put into the table, the flags are
  decided by the pairs of neighbours in the kernel's array alone: the inode is fragmented
  exactly when some extent, from the second on, starts strictly after the end of its
  predecessor (offset plus length, in \<^verbatim>\<open>uint64_t\<close>) or strictly before the start of its
  predecessor, and it is unordered exactly when some extent starts strictly before the start
  of its predecessor; an unordered inode is fragmented. An extent that starts after the end
  of its predecessor, the sum taken without wrap-around, makes the inode fragmented. For
  the extents at [0, 4096), [4096, 8192), [16384, 20480) the inode is fragmented and not
  unordered; with the first two exchanged it is unordered and fragmented.
\<close>

theorem fm_scan_extents_classification:
  "(find_inode (fm_inodes s) (st_ino sb0) = None \<and> ioctl_map env = Some (mapped, slots)
    \<and> fm_scan_extents fd sb0 abspath env s = (RET_TRUE, s')
    \<longrightarrow> (\<exists>fi. find_inode (fm_inodes s') (st_ino sb0) = Some fi
          \<and> (fragmented fi \<longleftrightarrow>
               (\<exists>j. 0 < j \<and> j < unat mapped
                  \<and> (fe_physical (slots ! j) > fe_physical (slots ! (j - 1)) + fe_length (slots ! (j - 1))
                     \<or> fe_physical (slots ! j) < fe_physical (slots ! (j - 1)))))
          \<and> (unordered fi \<longleftrightarrow>
               (\<exists>j. 0 < j \<and> j < unat mapped
                  \<and> fe_physical (slots ! j) < fe_physical (slots ! (j - 1))))
          \<and> (unordered fi \<longrightarrow> fragmented fi)
          \<and> (\<forall>j. 0 < j \<and> j < unat mapped
                 \<and> unat (fe_physical (slots ! (j - 1))) + unat (fe_length (slots ! (j - 1)))
                     < unat (fe_physical (slots ! j))
               \<longrightarrow> fragmented fi)))
   \<and> map (\<lambda>fi. (fragmented fi, unordered fi))
       (fm_inodes (snd (fm_scan_extents 3 sb_file ''/a'' (env_ok 3 3 layout_ordered) globals_4096)))
     = [(True, False)]
   \<and> map (\<lambda>fi. (fragmented fi, unordered fi))
       (fm_inodes (snd (fm_scan_extents 3 sb_file ''/a'' (env_ok 3 3 layout_swapped) globals_4096)))
     = [(True, True)]"
proof (intro conjI impI)
  assume h: "find_inode (fm_inodes s) (st_ino sb0) = None \<and> ioctl_map env = Some (mapped, slots)
    \<and> fm_scan_extents fd sb0 abspath env s = (RET_TRUE, s')"
  then have new: "find_inode (fm_inodes s) (st_ino sb0) = None"
    and run: "fm_scan_extents fd sb0 abspath env s = (RET_TRUE, s')" by simp_all
  from new run obtain mapped1 m sl fi3 s3 where
    q: "reaches_loop env s mapped1 m sl"
    "extent_loop env (st_ino sb0) m sl 0 zero_inode (loop_start mapped1 s) = (RET_TRUE, fi3, s3)"
    "fm_inodes s' = fm_inodes s @
       [append_name (new_name sb0 abspath) (fi3\<lparr>sb := sb0, inum := st_ino sb0\<rparr>)]"
    by (rule new_inode_result)
  from q(1) h have m: "m = mapped" "sl = slots" by (simp_all add: reaches_loop_def)
  let ?fi = "append_name (new_name sb0 abspath) (fi3\<lparr>sb := sb0, inum := st_ino sb0\<rparr>)"
  let ?G = "\<lambda>j. fe_physical (slots ! j) > fe_physical (slots ! (j - 1)) + fe_length (slots ! (j - 1))
                     \<or> fe_physical (slots ! j) < fe_physical (slots ! (j - 1))"
  let ?B = "\<lambda>j. fe_physical (slots ! j) < fe_physical (slots ! (j - 1))"
  have found: "find_inode (fm_inodes s') (st_ino sb0) = Some ?fi"
    using new q(3) by (simp add: find_inode_append append_name_facts)
  have z: "\<not> has_flag (iflags zero_inode) FM_IFLAGS_FRAGMENTED"
    "\<not> has_flag (iflags zero_inode) FM_IFLAGS_UNORDERED"
    by (simp_all add: zero_inode_def has_flag_def)
  from extent_loop_flags [OF q(2)] z m
  have fl: "has_flag (iflags fi3) FM_IFLAGS_FRAGMENTED \<longleftrightarrow> (\<exists>j. 0 < j \<and> j < unat mapped \<and> ?G j)"
    "has_flag (iflags fi3) FM_IFLAGS_UNORDERED \<longleftrightarrow> (\<exists>j. 0 < j \<and> j < unat mapped \<and> ?B j)"
    by (simp_all add: conj_commute conj_left_commute)
  have fr: "fragmented ?fi \<longleftrightarrow> (\<exists>j. 0 < j \<and> j < unat mapped \<and> ?G j)"
    and un: "unordered ?fi \<longleftrightarrow> (\<exists>j. 0 < j \<and> j < unat mapped \<and> ?B j)"
    using fl by (simp_all add: fragmented_has_flag unordered_has_flag append_name_facts)
  have imp: "unordered ?fi \<longrightarrow> fragmented ?fi" unfolding fr un by blast
  have nat: "\<forall>j. 0 < j \<and> j < unat mapped
                 \<and> unat (fe_physical (slots ! (j - 1))) + unat (fe_length (slots ! (j - 1)))
                     < unat (fe_physical (slots ! j))
               \<longrightarrow> fragmented ?fi"
    unfolding fr using word_gap_of_nat_gap by blast
  from found fr un imp nat
  show "\<exists>fi. find_inode (fm_inodes s') (st_ino sb0) = Some fi
          \<and> (fragmented fi \<longleftrightarrow> (\<exists>j. 0 < j \<and> j < unat mapped \<and> ?G j))
          \<and> (unordered fi \<longleftrightarrow> (\<exists>j. 0 < j \<and> j < unat mapped \<and> ?B j))
          \<and> (unordered fi \<longrightarrow> fragmented fi)
          \<and> (\<forall>j. 0 < j \<and> j < unat mapped
                 \<and> unat (fe_physical (slots ! (j - 1))) + unat (fe_length (slots ! (j - 1)))
                     < unat (fe_physical (slots ! j))
               \<longrightarrow> fragmented fi)"
    by blast
next
  show "map (\<lambda>fi. (fragmented fi, unordered fi))
       (fm_inodes (snd (fm_scan_extents 3 sb_file ''/a'' (env_ok 3 3 layout_ordered) globals_4096)))
     = [(True, False)]"
    by (simp add: fm_scan_extents_def query_extents_def grow_buffer_def new_capacity_def
       extent_loop.simps extent_body_def add_name_def log_def fail_def Let_def
       globals_4096_def initial_globals_def env_ok_def layout_ordered_def slot_def sb_file_def
       find_inode_def find_extent_def classify_def zero_inode_def zero_stat_def
       FIEMAP_EXTENT_LAST_def FM_IFLAGS_FRAGMENTED_def FM_IFLAGS_UNORDERED_def
       FM_IFLAGS_UNALIGNED_def append_name_def fragmented_def unordered_def)
  show "map (\<lambda>fi. (fragmented fi, unordered fi))
       (fm_inodes (snd (fm_scan_extents 3 sb_file ''/a'' (env_ok 3 3 layout_swapped) globals_4096)))
     = [(True, True)]"
    by (simp add: fm_scan_extents_def query_extents_def grow_buffer_def new_capacity_def
       extent_loop.simps extent_body_def add_name_def log_def fail_def Let_def
       globals_4096_def initial_globals_def env_ok_def layout_swapped_def slot_def sb_file_def
       find_inode_def find_extent_def classify_def zero_inode_def zero_stat_def
       FIEMAP_EXTENT_LAST_def FM_IFLAGS_FRAGMENTED_def FM_IFLAGS_UNORDERED_def
       FM_IFLAGS_UNALIGNED_def append_name_def fragmented_def unordered_def)
qed

theorem fm_scan_extents_classification_witness:
  "find_inode (fm_inodes globals_4096) (st_ino sb_file) = None
   \<and> ioctl_map (env_ok 3 3 layout_ordered) = Some (3, layout_ordered)
   \<and> fst (fm_scan_extents 3 sb_file ''/a'' (env_ok 3 3 layout_ordered) globals_4096) = RET_TRUE
   \<and> (\<exists>fi. find_inode
              (fm_inodes (snd (fm_scan_extents 3 sb_file ''/a'' (env_ok 3 3 layout_ordered)
                 globals_4096))) (st_ino sb_file) = Some fi
          \<and> fragmented fi \<and> \<not> unordered fi)"
proof -
  let ?run = "fm_scan_extents 3 sb_file ''/a'' (env_ok 3 3 layout_ordered) globals_4096"
  have new: "find_inode (fm_inodes globals_4096) (st_ino sb_file) = None"
    by (simp add: globals_4096_def initial_globals_def find_inode_def)
  have second: "ioctl_map (env_ok 3 3 layout_ordered) = Some (3, layout_ordered)"
    by (simp add: env_ok_def)
  have ok: "fst ?run = RET_TRUE"
    by (simp add: fm_scan_extents_def query_extents_def grow_buffer_def new_capacity_def
       extent_loop.simps extent_body_def add_name_def log_def fail_def Let_def
       globals_4096_def initial_globals_def env_ok_def layout_ordered_def slot_def sb_file_def
       find_inode_def find_extent_def zero_inode_def zero_stat_def FIEMAP_EXTENT_LAST_def)
  then have run: "?run = (RET_TRUE, snd ?run)" by (metis prod.collapse)
  have js: "\<And>j :: nat. 0 < j \<and> j < unat (3 :: u32) \<longleftrightarrow> j = 1 \<or> j = 2" by auto
  from fm_scan_extents_classification [of globals_4096 sb_file "env_ok 3 3 layout_ordered" 3
      layout_ordered 3 "''/a''" "snd ?run"] new second run
  obtain fi where fi: "find_inode (fm_inodes (snd ?run)) (st_ino sb_file) = Some fi"
    "fragmented fi \<longleftrightarrow>
        (\<exists>j. (0 < j \<and> j < unat (3 :: u32))
           \<and> (fe_physical (layout_ordered ! j)
                 > fe_physical (layout_ordered ! (j - 1)) + fe_length (layout_ordered ! (j - 1))
              \<or> fe_physical (layout_ordered ! j) < fe_physical (layout_ordered ! (j - 1))))"
    "unordered fi \<longleftrightarrow>
        (\<exists>j. (0 < j \<and> j < unat (3 :: u32))
           \<and> fe_physical (layout_ordered ! j) < fe_physical (layout_ordered ! (j - 1)))"
    by auto
  have "fragmented fi" unfolding fi(2) js
    by (rule exI [of _ 2]) (simp add: layout_ordered_def slot_def)
  moreover have "\<not> unordered fi" unfolding fi(3) js
    by (auto simp: layout_ordered_def slot_def)
  ultimately show ?thesis using new second ok fi(1) by blast
qed

section \<open>Properties of the directory walker\<close>

text \<open>The proof rule of the walk. \<open>I\<close> is a property of the global variables on the way,
  \<open>G\<close> a property of what a scanning function returns; the walk has \<open>G\<close> when every call of
  \<^verbatim>\<open>fm_scan_extents\<close> has it, every failure path has it, and \<open>I\<close> is kept by the events of
  the calls that succeed.\<close>

lemma walk_rule:
  assumes step: "\<And>fd sb0 abspath env s. I s \<Longrightarrow> G (fm_scan_extents fd sb0 abspath env s)"
      and lg: "\<And>evs s. I s \<Longrightarrow> clean evs \<Longrightarrow> I (log evs s)"
      and fl: "\<And>evs msg s. I s \<Longrightarrow> G (fail evs msg s)"
      and tr: "\<And>s. I s \<Longrightarrow> G (RET_TRUE, s)"
      and gi: "\<And>s. G (RET_TRUE, s) \<Longrightarrow> I s"
  shows "I s \<Longrightarrow> G (fm_scan_directory opts fd sb0 abspath denv s)"
    and "I s \<Longrightarrow> G (walk opts fd sb0 abspath stream s)"
proof (induction opts fd sb0 abspath denv s and opts fd sb0 abspath stream s
    rule: fm_scan_directory_walk.induct)
  case (1 opts fd sb0 abspath fsync_ok fdopendir_ok stream self s)
  let ?s1 = "if fm_sync_files opts then log [Did FSYNC True] s else s"
  let ?w = "walk opts fd sb0 abspath stream (log [Did FDOPENDIR True] ?s1)"
  show ?case
  proof (cases "fm_sync_files opts \<and> \<not> fsync_ok")
    case True
    with "1.prems" fl show ?thesis by simp
  next
    case f: False
    have i1: "I ?s1" using "1.prems" lg by simp
    show ?thesis
    proof (cases fdopendir_ok)
      case False
      with f fl [OF i1] show ?thesis by (auto simp: Let_def)
    next
      case True
      from i1 lg have "I (log [Did FDOPENDIR True] ?s1)" by simp
      with "1.IH" [OF f refl _ ] True have gw: "G ?w" by simp
      obtain r s2 where w: "?w = (r, s2)" by (cases ?w)
      show ?thesis
      proof (cases "r = RET_TRUE")
        case False
        with f True w have "fm_scan_directory opts fd sb0 abspath
            (Dir_env fsync_ok fdopendir_ok stream self) s = ?w"
          by (cases r) (auto simp: Let_def)
        with gw show ?thesis by simp
      next
        case r: True
        with gw w have i2: "I s2" by (simp add: gi)
        show ?thesis
        proof (cases "fm_scan_directories opts")
          case False
          with f True w r have "fm_scan_directory opts fd sb0 abspath
              (Dir_env fsync_ok fdopendir_ok stream self) s = (RET_TRUE, log [Close fd] s2)"
            by (auto simp: Let_def)
          with i2 lg tr show ?thesis by simp
        next
          case d: True
          let ?e = "fm_scan_extents fd sb0 abspath self s2"
          have ge: "G ?e" using i2 by (rule step)
          obtain r3 s3 where e: "?e = (r3, s3)" by (cases ?e)
          show ?thesis
          proof (cases "r3 = RET_TRUE")
            case False
            with f True w r d e have "fm_scan_directory opts fd sb0 abspath
                (Dir_env fsync_ok fdopendir_ok stream self) s = ?e"
              by (cases r3) (auto simp: Let_def)
            with ge show ?thesis by simp
          next
            case r3: True
            with ge e have "I s3" by (simp add: gi)
            moreover from f True w r d e r3 have "fm_scan_directory opts fd sb0 abspath
                (Dir_env fsync_ok fdopendir_ok stream self) s = (RET_TRUE, log [Close fd] s3)"
              by (auto simp: Let_def)
            ultimately show ?thesis using lg tr by simp
          qed
        qed
      qed
    qed
  qed
next
  case (2 opts fd sb0 abspath s)
  with lg tr show ?case by simp
next
  case (3 opts fd sb0 abspath s)
  with fl show ?case by simp
next
  case (4 opts fd sb0 abspath d_name fstatat_res openat_res fstat_res sub leaf rest s)
  let ?s1 = "log [Did READDIR True] s"
  let ?lhs = "walk opts fd sb0 abspath
      (Entry d_name fstatat_res openat_res fstat_res sub leaf rest) s"
  have i1: "I ?s1" using "4.prems" lg by simp
  show ?case
  proof (cases "strcmp d_name ''.'' = 0 \<or> strcmp d_name ''..'' = 0")
    case True
    with "4.IH"(1) [OF refl True i1] show ?thesis by (simp add: Let_def)
  next
    case dots: False
    show ?thesis
    proof (cases fstatat_res)
      case None
      with dots fl [OF i1] show ?thesis by (simp add: Let_def)
    next
      case st: (Some esb1)
      let ?s2 = "log [Did FSTATAT True] ?s1"
      have i2: "I ?s2" using i1 lg by simp
      show ?thesis
      proof (cases "st_dev esb1 \<noteq> st_dev sb0")
        case True
        with "4.IH"(2) [OF refl dots st refl True i2] dots st show ?thesis by (simp add: Let_def)
      next
        case dev: False
        show ?thesis
        proof (cases "\<not> (is_dir esb1 \<or> is_reg esb1)")
          case True
          with "4.IH"(3) [OF refl dots st refl dev True i2] dots st dev show ?thesis
            by (simp add: Let_def)
        next
          case ty: False
          show ?thesis
          proof (cases openat_res)
            case None
            with dots st dev ty fl [OF i2] show ?thesis by (simp add: Let_def)
          next
            case op: (Some efd)
            show ?thesis
            proof (cases fstat_res)
              case None
              with dots st dev ty op fl [OF i2] show ?thesis by (simp add: Let_def)
            next
              case fs: (Some esb)
              let ?s3 = "log [Did OPENAT True, Did FSTAT True] ?s2"
              have i3: "I ?s3" using i2 lg by simp
              have i3c: "I (log [Close efd] ?s3)" using i3 lg by simp
              show ?thesis
              proof (cases "st_dev esb \<noteq> st_dev sb0")
                case True
                with "4.IH"(4) [OF refl dots st refl dev ty op fs refl True i3c]
                  dots st dev ty op fs show ?thesis by (simp add: Let_def)
              next
                case dev2: False
                show ?thesis
                proof (cases "is_dir esb")
                  case True
                  let ?d = "fm_scan_directory opts efd esb (entry_path abspath d_name) sub ?s3"
                  from "4.IH"(5) [OF refl dots st refl dev ty op fs refl dev2 True i3]
                  have gd: "G ?d" .
                  obtain r4 s4 where d: "?d = (r4, s4)" by (cases ?d)
                  show ?thesis
                  proof (cases "r4 = RET_TRUE")
                    case False
                    with dots st dev ty op fs dev2 True d have "?lhs = ?d"
                      by (cases r4) (simp_all add: Let_def)
                    with gd show ?thesis by simp
                  next
                    case r: True
                    with gd d have i4: "I s4" by (simp add: gi)
                    from "4.IH"(6) [OF refl dots st refl dev ty op fs refl dev2 True d [symmetric] _ i4] r
                    have "G (walk opts fd sb0 abspath rest s4)" by simp
                    with dots st dev ty op fs dev2 True d r show ?thesis by (simp add: Let_def)
                  qed
                next
                  case nd: False
                  show ?thesis
                  proof (cases "is_reg esb")
                    case True
                    let ?e = "fm_scan_extents efd esb (entry_path abspath d_name) leaf ?s3"
                    have ge: "G ?e" using i3 by (rule step)
                    obtain r4 s4 where e: "?e = (r4, s4)" by (cases ?e)
                    show ?thesis
                    proof (cases "r4 = RET_TRUE")
                      case False
                      with dots st dev ty op fs dev2 nd True e have "?lhs = ?e"
                        by (cases r4) (simp_all add: Let_def)
                      with ge show ?thesis by simp
                    next
                      case r: True
                      with ge e have i4: "I s4" by (simp add: gi)
                      from "4.IH"(7) [OF refl dots st refl dev ty op fs refl dev2 nd True e [symmetric] _ i4] r
                      have "G (walk opts fd sb0 abspath rest s4)" by simp
                      with dots st dev ty op fs dev2 nd True e r show ?thesis
                        by (simp add: Let_def)
                    qed
                  next
                    case False
                    with "4.IH"(8) [OF refl dots st refl dev ty op fs refl dev2 nd False i3c]
                      dots st dev ty op fs dev2 nd show ?thesis by (simp add: Let_def)
                  qed
                qed
              qed
            qed
          qed
        qed
      qed
    qed
  qed
qed

text \<open>The trace of a walk: a failure is recorded exactly when it returns \<^verbatim>\<open>false\<close>.\<close>

lemma walk_trace:
  "extends s (snd (fm_scan_directory opts fd sb0 abspath denv s))
   \<and> (clean (added s (snd (fm_scan_directory opts fd sb0 abspath denv s)))
        \<longleftrightarrow> \<not> returns_false (fst (fm_scan_directory opts fd sb0 abspath denv s)))"
proof -
  define I where "I t \<longleftrightarrow> extends s t \<and> clean (added s t)" for t :: fm_globals
  define G where "G res \<longleftrightarrow> extends s (snd res)
     \<and> (clean (added s (snd res)) \<longleftrightarrow> \<not> returns_false (fst res))" for res :: "fm_ret \<times> fm_globals"
  have "G (fm_scan_directory opts fd sb0 abspath denv s)"
  proof (rule walk_rule(1) [where I = I and G = G])
    show "I s" by (simp add: I_def)
  next
    fix fd sb0 abspath env t
    assume i: "I t"
    obtain r t' where run: "fm_scan_extents fd sb0 abspath env t = (r, t')"
      by (cases "fm_scan_extents fd sb0 abspath env t")
    from fm_scan_extents_trace [OF run] have e: "extends t t'"
      "clean (added t t') \<longleftrightarrow> \<not> returns_false r" by simp_all
    from i have "extends s t" by (simp add: I_def)
    from extends_trans [OF this e(1)] i e(2) run
    show "G (fm_scan_extents fd sb0 abspath env t)" by (simp add: G_def I_def)
  next
    fix evs t
    assume i: "I t" and c: "clean evs"
    then have "extends s t" by (simp add: I_def)
    from extends_trans [OF this extends_log(1) [of t evs]] i c
    show "I (log evs t)" by (simp add: I_def)
  next
    fix evs msg t
    assume i: "I t"
    then have "extends s t" by (simp add: I_def)
    from extends_trans [OF this extends_log(1) [of t "evs @ [Diagnostic msg]"]]
    show "G (fail evs msg t)" by (simp add: G_def fail_def)
  next
    fix t
    show "I t \<Longrightarrow> G (RET_TRUE, t)" by (simp add: I_def G_def)
    show "G (RET_TRUE, t) \<Longrightarrow> I t" by (simp add: I_def G_def)
  qed
  then show ?thesis by (simp add: G_def)
qed

text \<open>The offsets of the table of extents stay distinct during a walk.\<close>

lemma walk_distinct:
  assumes "distinct (map off (fm_extents s))"
  shows "distinct (map off (fm_extents (snd (fm_scan_directory opts fd sb0 abspath denv s))))"
proof -
  define I where "I t \<longleftrightarrow> distinct (map off (fm_extents t))" for t :: fm_globals
  define G where "G res \<longleftrightarrow> I (snd res)" for res :: "fm_ret \<times> fm_globals"
  have "G (fm_scan_directory opts fd sb0 abspath denv s)"
  proof (rule walk_rule(1) [where I = I and G = G])
    show "I s" using assms by (simp add: I_def)
  next
    fix fd sb0 abspath env t
    assume "I t"
    with fm_scan_extents_extents [of fd sb0 abspath env t
        "fst (fm_scan_extents fd sb0 abspath env t)" "snd (fm_scan_extents fd sb0 abspath env t)"]
    show "G (fm_scan_extents fd sb0 abspath env t)" by (simp add: G_def I_def)
  qed (simp_all add: I_def G_def fail_def)
  then show ?thesis by (simp add: G_def I_def)
qed

section \<open>Properties of main\<close>

lemma mset_hash_insert: "hash_insert c x ys = Some zs \<Longrightarrow> mset zs = add_mset x (mset ys)"
proof (induction ys arbitrary: zs)
  case Nil
  then show ?case by auto
next
  case (Cons y ys)
  then show ?case by (auto split: option.splits if_splits)
qed

lemma mset_HASH_SORT: "HASH_SORT c xs = Some ys \<Longrightarrow> mset ys = mset xs"
proof (induction xs arbitrary: ys)
  case Nil
  then show ?case by simp
next
  case (Cons x xs)
  then show ?case by (auto split: option.splits dest: mset_hash_insert)
qed

lemma distinct_HASH_SORT:
  assumes "HASH_SORT c xs = Some ys"
  shows "distinct (map off ys) \<longleftrightarrow> distinct (map off xs)"
proof -
  from mset_HASH_SORT [OF assms] have "mset (map off ys) = mset (map off xs)" by simp
  then show ?thesis by (rule mset_eq_imp_distinct_iff)
qed

lemma sort_and_report_facts:
  "trace (snd (sort_and_report ld opts s)) = trace s
   \<and> (distinct (map off (fm_extents s))
        \<longrightarrow> distinct (map off (fm_extents (snd (sort_and_report ld opts s)))))
   \<and> fst (sort_and_report ld opts s) \<noteq> Exit EXIT_FAILURE None"
  by (auto simp: sort_and_report_def distinct_HASH_SORT EXIT_SUCCESS_def EXIT_FAILURE_def
      split: option.splits sum.splits)

lemma scan_path_facts:
  "extends s (snd (scan_path opts fd sb0 env s))
   \<and> (clean (added s (snd (scan_path opts fd sb0 env s)))
        \<longleftrightarrow> \<not> returns_false (fst (scan_path opts fd sb0 env s)))
   \<and> (distinct (map off (fm_extents s))
        \<longrightarrow> distinct (map off (fm_extents (snd (scan_path opts fd sb0 env s)))))"
proof (cases "is_dir sb0")
  case True
  with walk_trace [of s opts fd sb0 "path env" "root_dir env"]
    walk_distinct [of s opts fd sb0 "path env" "root_dir env"]
  show ?thesis by (simp add: scan_path_def)
next
  case d: False
  show ?thesis
  proof (cases "is_reg sb0")
    case True
    let ?e = "fm_scan_extents fd sb0 (path env) (root_file env) s"
    from fm_scan_extents_trace [of fd sb0 "path env" "root_file env" s "fst ?e" "snd ?e"]
      fm_scan_extents_extents [of fd sb0 "path env" "root_file env" s "fst ?e" "snd ?e"] d True
    show ?thesis by (simp add: scan_path_def)
  next
    case False
    with d show ?thesis by (simp add: scan_path_def fail_def)
  qed
qed

text \<open>The global variables with which \<^verbatim>\<open>main\<close> starts the scan.\<close>

definition scan_start :: "stat \<Rightarrow> fm_globals" where
  "scan_start sb0 =
     (log [Did OPEN True, Did FSTAT True] initial_globals)\<lparr>fm_blksz := st_blksize sb0\<rparr>"

lemma scan_start_facts [simp]:
  "trace (scan_start sb0) = [Did OPEN True, Did FSTAT True]"
  "fm_extents (scan_start sb0) = []"
  by (simp_all add: scan_start_def initial_globals_def)

lemma main_scanned:
  assumes "parse_result env = FM_OPTPARSE_CONTINUE" "open_result env = Some fd"
    "fstat_result env = Some sb0"
  shows "main ld opts env =
     (case scan_path opts fd sb0 env (scan_start sb0) of
        (RET_TRUE, s) \<Rightarrow> sort_and_report ld opts s
      | (RET_FALSE msg, s) \<Rightarrow> (Exit EXIT_FAILURE None, s)
      | (UNDEFINED u, s) \<Rightarrow> (Undefined_behaviour u, s))"
  using assms by (simp add: main_def scan_start_def)

text \<open>When the trace of \<^verbatim>\<open>main\<close> holds a failure, \<^verbatim>\<open>main\<close> has returned \<^verbatim>\<open>EXIT_FAILURE\<close>
  without a call of \<^verbatim>\<open>fm_print_results\<close>; and the offsets of the extents are distinct
  when \<^verbatim>\<open>main\<close> ends.\<close>

lemma main_facts:
  "(\<not> clean (trace (snd (main ld opts env))) \<longrightarrow> fst (main ld opts env) = Exit EXIT_FAILURE None)
   \<and> distinct (map off (fm_extents (snd (main ld opts env))))
   \<and> (\<forall>c out. fst (main ld opts env) = Exit c (Some out)
        \<longrightarrow> c = EXIT_SUCCESS \<and> clean (trace (snd (main ld opts env))))"
proof (cases "parse_result env")
  case FM_OPTPARSE_EXIT_SUCCESS
  then show ?thesis by (simp add: main_def initial_globals_def)
next
  case FM_OPTPARSE_EXIT_FAILURE
  then show ?thesis by (simp add: main_def initial_globals_def)
next
  case c: FM_OPTPARSE_CONTINUE
  show ?thesis
  proof (cases "open_result env")
    case None
    with c show ?thesis by (simp add: main_def initial_globals_def log_def)
  next
    case op: (Some fd)
    show ?thesis
    proof (cases "fstat_result env")
      case None
      with c op show ?thesis by (simp add: main_def initial_globals_def log_def)
    next
      case (Some sb0)
      let ?p = "scan_path opts fd sb0 env (scan_start sb0)"
      obtain r s where p: "?p = (r, s)" by (cases ?p)
      from scan_path_facts [of "scan_start sb0" opts fd sb0 env] p
      have e: "extends (scan_start sb0) s" "clean (added (scan_start sb0) s) \<longleftrightarrow> \<not> returns_false r"
        "distinct (map off (fm_extents s))" by simp_all
      from extends_added [OF e(1)] e(2)
      have cl: "clean (trace s) \<longleftrightarrow> \<not> returns_false r" by simp
      show ?thesis
      proof (cases r)
        case RET_TRUE
        with main_scanned [OF c op Some, of ld opts] p
        have "main ld opts env = sort_and_report ld opts s" by simp
        with sort_and_report_facts [of ld opts s] cl e(3) RET_TRUE show ?thesis
          by (auto simp: sort_and_report_def split: option.splits sum.splits)
      next
        case (RET_FALSE msg)
        with main_scanned [OF c op Some, of ld opts] p e(3) show ?thesis by simp
      next
        case (UNDEFINED u)
        with main_scanned [OF c op Some, of ld opts] p e(3) cl show ?thesis by simp
      qed
    qed
  qed
qed

lemmas scan_eval =
  fm_scan_extents_def query_extents_def grow_buffer_def new_capacity_def extent_loop.simps
  extent_body_def add_name_def log_def fail_def Let_def find_inode_def find_extent_def
  classify_def zero_inode_def zero_stat_def append_name_def new_name_def DL_SORT_def
  fm_sortby_filename_cb_def three_way_def is_dir_def is_reg_def S_IFMT_def S_IFDIR_def
  S_IFREG_def PATH_MAX_def FIEMAP_EXTENT_LAST_def FM_IFLAGS_FRAGMENTED_def
  FM_IFLAGS_UNORDERED_def FM_IFLAGS_UNALIGNED_def env_ok_def slot_def

lemmas main_eval =
  main_def scan_path_def entry_path_def initial_globals_def main_env_of_def file_entry_def
  bad_entry_def no_dir_def sb_dir_def sb_reg_def default_options_def

lemma failure_iff_not_clean: "(\<exists>e \<in> set evs. failure e) \<longleftrightarrow> \<not> clean evs"
  by (simp add: clean_def list_all_iff)

text \<open>
  Claim C4. Whenever a call that the scan checks fails (\<^verbatim>\<open>fstatat\<close>, \<^verbatim>\<open>fstat\<close>, \<^verbatim>\<open>open\<close>,
  \<^verbatim>\<open>openat\<close>, \<^verbatim>\<open>fdopendir\<close>, \<^verbatim>\<open>readdir\<close>, \<^verbatim>\<open>fsync\<close>, \<^verbatim>\<open>FS_IOC_FIEMAP\<close>, \<^verbatim>\<open>realloc\<close>,
  \<^verbatim>\<open>calloc\<close>), or a diagnostic is printed, the call of \<^verbatim>\<open>fm_scan_directory\<close> during which it
  happens returns \<^verbatim>\<open>false\<close>, at every depth of the recursion; \<^verbatim>\<open>main\<close> then returns
  \<^verbatim>\<open>EXIT_FAILURE\<close>, which is not zero, and \<^verbatim>\<open>fm_print_results\<close> has not been called. A report
  is produced only by a run that returns \<^verbatim>\<open>EXIT_SUCCESS\<close> and in which nothing has failed.
\<close>

theorem failure_reaches_main:
  "((\<exists>e \<in> set (added s (snd (fm_scan_directory opts fd sb0 abspath denv s))). failure e)
      \<longrightarrow> returns_false (fst (fm_scan_directory opts fd sb0 abspath denv s)))
   \<and> ((\<exists>e \<in> set (trace (snd (main ld opts env))). failure e)
      \<longrightarrow> fst (main ld opts env) = Exit EXIT_FAILURE None \<and> EXIT_FAILURE \<noteq> 0)
   \<and> (\<forall>c out. fst (main ld opts env) = Exit c (Some out)
        \<longrightarrow> c = EXIT_SUCCESS \<and> \<not> (\<exists>e \<in> set (trace (snd (main ld opts env))). failure e))"
  unfolding failure_iff_not_clean
  using walk_trace [of s opts fd sb0 abspath denv] main_facts [of ld opts env]
  by (simp add: EXIT_FAILURE_def)

theorem failure_reaches_main_witness:
  "Did FSTATAT False \<in> set (trace (snd (main id default_options (main_env_of five_entries))))
   \<and> failure (Did FSTATAT False)
   \<and> fst (main id default_options (main_env_of five_entries)) = Exit EXIT_FAILURE None
   \<and> map inum (fm_inodes (snd (main id default_options (main_env_of five_entries)))) = [11, 12]"
proof -
  let ?m = "main id default_options (main_env_of five_entries)"
  have t: "Did FSTATAT False \<in> set (trace (snd ?m))"
    by (simp add: main_eval scan_eval five_entries_def)
  have i: "map inum (fm_inodes (snd ?m)) = [11, 12]"
    by (simp add: main_eval scan_eval five_entries_def)
  have f: "failure (Did FSTATAT False)" by (simp add: failure_def)
  with t have "\<exists>e \<in> set (trace (snd ?m)). failure e" by blast
  with failure_reaches_main [where ld = id and opts = default_options
      and env = "main_env_of five_entries"]
  have "fst ?m = Exit EXIT_FAILURE None" by blast
  with t f i show ?thesis by simp
qed

text \<open>
  Claim C2. A call of \<^verbatim>\<open>fm_scan_extents\<close> keeps the physical offsets of the table of extents
  distinct, and they are distinct when \<^verbatim>\<open>main\<close> ends. When, for an inode that is not in the
  table, the kernel reports an extent whose physical offset is in the table already, the
  call returns \<^verbatim>\<open>false\<close>, the extents that were in the table are still there, first and
  unchanged, and the inode is not inserted. When the diagnostic of the shared extents has
  been printed, \<^verbatim>\<open>main\<close> returns \<^verbatim>\<open>EXIT_FAILURE\<close> without a report.
\<close>

theorem extent_offsets_unique:
  "(distinct (map off (fm_extents s))
      \<longrightarrow> distinct (map off (fm_extents (snd (fm_scan_extents fd sb0 abspath env s)))))
   \<and> distinct (map off (fm_extents (snd (main ld opts menv))))
   \<and> (find_inode (fm_inodes s) (st_ino sb0) = None \<and> ioctl_map env = Some (mapped, slots)
        \<and> i < unat mapped \<and> i < length slots \<and> fm_blksz s \<noteq> 0
        \<and> fe_physical (slots ! i) \<in> off ` set (fm_extents s)
      \<longrightarrow> returns_false (fst (fm_scan_extents fd sb0 abspath env s))
          \<and> take (length (fm_extents s)) (fm_extents (snd (fm_scan_extents fd sb0 abspath env s)))
              = fm_extents s
          \<and> fm_inodes (snd (fm_scan_extents fd sb0 abspath env s)) = fm_inodes s)
   \<and> (Diagnostic MSG_SHARED_EXTENTS \<in> set (trace (snd (main ld opts menv)))
      \<longrightarrow> fst (main ld opts menv) = Exit EXIT_FAILURE None)"
proof (intro conjI impI)
  let ?e = "fm_scan_extents fd sb0 abspath env s"
  have run: "?e = (fst ?e, snd ?e)" by simp
  note ext = fm_scan_extents_extents [OF run]
  from ext show "distinct (map off (fm_extents s)) \<Longrightarrow> distinct (map off (fm_extents (snd ?e)))"
    by simp
  from main_facts [of ld opts menv]
  show "distinct (map off (fm_extents (snd (main ld opts menv))))" by simp
  {
    assume h: "find_inode (fm_inodes s) (st_ino sb0) = None \<and> ioctl_map env = Some (mapped, slots)
        \<and> i < unat mapped \<and> i < length slots \<and> fm_blksz s \<noteq> 0
        \<and> fe_physical (slots ! i) \<in> off ` set (fm_extents s)"
    then have new: "find_inode (fm_inodes s) (st_ino sb0) = None" by simp
    obtain r s1 where q: "query_extents sb0 env s = (r, s1)" by (cases "query_extents sb0 env s")
    have rf: "returns_false r"
    proof (cases "\<exists>mapped1 m sl. reaches_loop env s mapped1 m sl")
      case False
      with query_extents_early [of env s sb0] q show ?thesis by auto
    next
      case True
      then obtain mapped1 m sl where rl: "reaches_loop env s mapped1 m sl" by blast
      with h have m: "m = mapped" "sl = slots" by (simp_all add: reaches_loop_def)
      obtain r1 fi s3 where l: "extent_loop env (st_ino sb0) mapped slots 0 zero_inode
          (loop_start mapped1 s) = (r1, fi, s3)" by (metis prod_cases3)
      from extent_loop_shared [OF l, of i] h have "returns_false r1" by simp
      moreover from q l rl m have "r = r1"
        by (cases r1) (auto simp: query_extents_loop [OF rl])
      ultimately show ?thesis by simp
    qed
    then have nt: "r \<noteq> RET_TRUE" by auto
    from fm_scan_extents_new_other [OF new q nt] have e: "?e = (r, s1)" .
    from e rf show "returns_false (fst ?e)" by simp
    from ext obtain new where "fm_extents (snd ?e) = fm_extents s @ new" by blast
    then show "take (length (fm_extents s)) (fm_extents (snd ?e)) = fm_extents s" by simp
    from query_extents_other [OF q nt] e show "fm_inodes (snd ?e) = fm_inodes s" by simp
  }
  {
    assume "Diagnostic MSG_SHARED_EXTENTS \<in> set (trace (snd (main ld opts menv)))"
    moreover have "failure (Diagnostic MSG_SHARED_EXTENTS)" by (simp add: failure_def)
    ultimately have "\<not> clean (trace (snd (main ld opts menv)))"
      unfolding failure_iff_not_clean [symmetric] by blast
    with main_facts [of ld opts menv]
    show "fst (main ld opts menv) = Exit EXIT_FAILURE None" by simp
  }
qed

text \<open>The table after the file with the inode number 11 and one extent at the offset 0 has
  been scanned.\<close>

definition one_file :: fm_globals where
  "one_file = snd (fm_scan_extents 4 (sb_reg 11) ''/mnt/a'' (env_ok 1 1 [slot 0 1]) globals_4096)"

theorem extent_offsets_unique_witness:
  "distinct (map off (fm_extents one_file))
   \<and> find_inode (fm_inodes one_file) (st_ino (sb_reg 12)) = None
   \<and> fe_physical ([slot 0 1] ! 0) \<in> off ` set (fm_extents one_file)
   \<and> fst (fm_scan_extents 5 (sb_reg 12) ''/mnt/b'' (env_ok 1 1 [slot 0 1]) one_file)
       = RET_FALSE MSG_SHARED_EXTENTS
   \<and> map off (fm_extents (snd (fm_scan_extents 5 (sb_reg 12) ''/mnt/b'' (env_ok 1 1 [slot 0 1])
        one_file))) = [0]
   \<and> map inum (fm_inodes (snd (fm_scan_extents 5 (sb_reg 12) ''/mnt/b'' (env_ok 1 1 [slot 0 1])
        one_file))) = [11]
   \<and> Diagnostic MSG_SHARED_EXTENTS
       \<in> set (trace (snd (main id default_options (main_env_of two_sharing))))
   \<and> fst (main id default_options (main_env_of two_sharing)) = Exit EXIT_FAILURE None"
proof -
  let ?e = "fm_scan_extents 5 (sb_reg 12) ''/mnt/b'' (env_ok 1 1 [slot 0 1]) one_file"
  let ?m = "main id default_options (main_env_of two_sharing)"
  have s: "fm_extents one_file = [\<lparr>off = 0, inode = 11, len = 4096, pos = 1, eflags = 1\<rparr>]"
    "map inum (fm_inodes one_file) = [11]" "fm_blksz one_file = 4096"
    by (simp_all add: one_file_def scan_eval sb_reg_def globals_4096_def initial_globals_def)
  have d: "distinct (map off (fm_extents one_file))" by (simp add: s)
  have new: "find_inode (fm_inodes one_file) (st_ino (sb_reg 12)) = None"
    using s(2) by (simp add: find_inode_None sb_reg_def flip: set_map)
  have sh: "fe_physical ([slot 0 1] ! 0) \<in> off ` set (fm_extents one_file)"
    by (simp add: s slot_def)
  have r: "fst ?e = RET_FALSE MSG_SHARED_EXTENTS"
    by (simp add: one_file_def scan_eval sb_reg_def globals_4096_def initial_globals_def)
  have t: "Diagnostic MSG_SHARED_EXTENTS \<in> set (trace (snd ?m))"
    by (simp add: main_eval scan_eval two_sharing_def)
  from extent_offsets_unique [where s = one_file and fd = 5 and ?sb0.0 = "sb_reg 12"
      and abspath = "''/mnt/b''" and env = "env_ok 1 1 [slot 0 1]" and ld = id
      and opts = default_options and menv = "main_env_of two_sharing" and mapped = 1
      and slots = "[slot 0 1]" and i = 0] d new sh t s(3)
  have "take (length (fm_extents one_file)) (fm_extents (snd ?e)) = fm_extents one_file"
    "fm_inodes (snd ?e) = fm_inodes one_file" "fst ?m = Exit EXIT_FAILURE None"
    "distinct (map off (fm_extents (snd ?e)))"
    by (simp_all add: env_ok_def)
  moreover have "map off (fm_extents (snd ?e)) = [0]"
    by (simp add: one_file_def scan_eval sb_reg_def globals_4096_def initial_globals_def)
  ultimately show ?thesis using d new sh r t s(2) by simp
qed

section \<open>The names of an inode\<close>

text \<open>The inode that a query puts into the table has no name yet.\<close>

lemma installed_inode:
  assumes "query_extents sb0 env s = (RET_TRUE, s1)"
  shows "\<exists>fi mapped slots. fm_inodes s1 = fm_inodes s @ [fi] \<and> inum fi = st_ino sb0 \<and> sb fi = sb0
     \<and> names fi = [] \<and> namecount fi = 0
     \<and> ioctl_map env = Some (mapped, slots) \<and> extcount fi = of_nat (unat mapped)
     \<and> fm_extents s1 = fm_extents s @ map (new_extent (st_ino sb0) slots) [0 ..< unat mapped]"
proof -
  from query_extents_true [OF assms] obtain mapped1 mapped slots fi3 s3 where
    q: "reaches_loop env s mapped1 mapped slots"
    "extent_loop env (st_ino sb0) mapped slots 0 zero_inode (loop_start mapped1 s)
       = (RET_TRUE, fi3, s3)"
    "s1 = installed sb0 fi3 s3" by blast
  from extent_loop_frame [OF q(2)] have f: "fm_inodes s3 = fm_inodes s" by simp
  from extent_loop_inode [OF q(2)] have i: "names fi3 = []" "namecount fi3 = 0"
    "extcount fi3 = of_nat (unat mapped)"
    "fm_extents s3 = fm_extents s @ map (new_extent (st_ino sb0) slots) [0 ..< unat mapped]"
    by (simp_all add: zero_inode_def)
  from q(1) have m: "ioctl_map env = Some (mapped, slots)" by (simp add: reaches_loop_def)
  let ?fi = "fi3\<lparr>sb := sb0, inum := st_ino sb0\<rparr>"
  from q(3) f i m have "fm_inodes s1 = fm_inodes s @ [?fi] \<and> inum ?fi = st_ino sb0 \<and> sb ?fi = sb0
     \<and> names ?fi = [] \<and> namecount ?fi = 0
     \<and> ioctl_map env = Some (mapped, slots) \<and> extcount ?fi = of_nat (unat mapped)
     \<and> fm_extents s1 = fm_extents s @ map (new_extent (st_ino sb0) slots) [0 ..< unat mapped]"
    by simp
  then show ?thesis by blast
qed

definition names_of :: "fm_inode list \<Rightarrow> u64 \<Rightarrow> string list" where
  "names_of tbl k = (case find_inode tbl k of None \<Rightarrow> [] | Some fi \<Rightarrow> names fi)"

definition all_sorted :: "fm_inode list \<Rightarrow> bool" where
  "all_sorted tbl = list_all (\<lambda>fi. names_sorted (names fi)) tbl"

lemma all_sorted_update:
  "all_sorted tbl \<Longrightarrow> all_sorted (update_inode k (append_name n) tbl)"
  by (induction tbl) (simp_all add: all_sorted_def append_name_facts)

lemma all_sorted_append:
  "all_sorted (tbl @ [fi]) \<longleftrightarrow> all_sorted tbl \<and> names_sorted (names fi)"
  by (simp add: all_sorted_def)

lemma names_sorted_Nil [simp]: "names_sorted []"
  by (simp add: names_sorted_def)

text \<open>Every call keeps the name lists of the table sorted.\<close>

lemma fm_scan_extents_all_sorted:
  assumes run: "fm_scan_extents fd sb0 abspath env s = (r, s')"
    and inv: "all_sorted (fm_inodes s)"
  shows "all_sorted (fm_inodes s')"
  using run
proof (cases rule: fm_scan_extents_cases)
  case (present_ok fi)
  with inv show ?thesis by (simp add: all_sorted_update)
next
  case (present_fail fi)
  with inv show ?thesis by simp
next
  case (new_ok s1)
  from installed_inode [OF new_ok(2)] obtain fi where
    "fm_inodes s1 = fm_inodes s @ [fi]" "names fi = []" by blast
  with inv have "all_sorted (fm_inodes s1)" by (simp add: all_sorted_append)
  with new_ok show ?thesis by (simp add: all_sorted_update)
next
  case (new_fail s1)
  from installed_inode [OF new_fail(2)] obtain fi where
    "fm_inodes s1 = fm_inodes s @ [fi]" "names fi = []" by blast
  with inv new_fail show ?thesis by (simp add: all_sorted_append)
next
  case new_other
  with query_extents_other [OF new_other(2,3)] inv show ?thesis by simp
qed

text \<open>A call that returns \<^verbatim>\<open>true\<close> has appended one name to the inode of its number, and
  has left the names of the other inodes alone.\<close>

lemma fm_scan_extents_names:
  assumes run: "fm_scan_extents fd sb0 abspath env s = (RET_TRUE, s')"
  shows "\<exists>fi. find_inode (fm_inodes s') (st_ino sb0) = Some fi
     \<and> names fi = DL_SORT fm_sortby_filename_cb
         (names_of (fm_inodes s) (st_ino sb0) @ [new_name sb0 abspath])
     \<and> (\<forall>j. j \<noteq> st_ino sb0 \<longrightarrow> names_of (fm_inodes s') j = names_of (fm_inodes s) j)"
  using run
proof (cases rule: fm_scan_extents_cases)
  case (present_ok fi)
  have p: "\<And>x. inum (append_name (new_name sb0 abspath) x) = inum x"
    by (simp add: append_name_facts)
  from present_ok show ?thesis
    by (simp add: find_inode_update [OF p] names_of_def append_name_def)
next
  case (new_ok s1)
  have p: "\<And>x. inum (append_name (new_name sb0 abspath) x) = inum x"
    by (simp add: append_name_facts)
  from installed_inode [OF new_ok(2)] obtain fi where
    fi: "fm_inodes s1 = fm_inodes s @ [fi]" "names fi = []" "inum fi = st_ino sb0" by blast
  with new_ok(1) have "find_inode (fm_inodes s1) (st_ino sb0) = Some fi"
    by (simp add: find_inode_append)
  moreover have "\<And>j. j \<noteq> st_ino sb0 \<Longrightarrow> find_inode (fm_inodes s1) j = find_inode (fm_inodes s) j"
    using fi by (simp add: find_inode_append split: option.splits)
  ultimately show ?thesis using new_ok(1,5) fi(2)
    by (simp add: find_inode_update [OF p] names_of_def append_name_def)
qed simp_all

lemma walk_all_sorted:
  assumes "all_sorted (fm_inodes s)"
  shows "all_sorted (fm_inodes (snd (fm_scan_directory opts fd sb0 abspath denv s)))"
proof -
  define I where "I t \<longleftrightarrow> all_sorted (fm_inodes t)" for t :: fm_globals
  define G where "G res \<longleftrightarrow> I (snd res)" for res :: "fm_ret \<times> fm_globals"
  have "G (fm_scan_directory opts fd sb0 abspath denv s)"
  proof (rule walk_rule(1) [where I = I and G = G])
    show "I s" using assms by (simp add: I_def)
  next
    fix fd sb0 abspath env t
    assume "I t"
    with fm_scan_extents_all_sorted [of fd sb0 abspath env t
        "fst (fm_scan_extents fd sb0 abspath env t)" "snd (fm_scan_extents fd sb0 abspath env t)"]
    show "G (fm_scan_extents fd sb0 abspath env t)" by (simp add: G_def I_def)
  qed (simp_all add: I_def G_def fail_def)
  then show ?thesis by (simp add: G_def I_def)
qed

lemma main_all_sorted: "all_sorted (fm_inodes (snd (main ld opts env)))"
proof (cases "parse_result env")
  case FM_OPTPARSE_EXIT_SUCCESS
  then show ?thesis by (simp add: main_def initial_globals_def all_sorted_def)
next
  case FM_OPTPARSE_EXIT_FAILURE
  then show ?thesis by (simp add: main_def initial_globals_def all_sorted_def)
next
  case c: FM_OPTPARSE_CONTINUE
  show ?thesis
  proof (cases "open_result env")
    case None
    with c show ?thesis by (simp add: main_def initial_globals_def all_sorted_def)
  next
    case op: (Some fd)
    show ?thesis
    proof (cases "fstat_result env")
      case None
      with c op show ?thesis by (simp add: main_def initial_globals_def all_sorted_def)
    next
      case (Some sb0)
      let ?p = "scan_path opts fd sb0 env (scan_start sb0)"
      have s0: "all_sorted (fm_inodes (scan_start sb0))"
        by (simp add: scan_start_def initial_globals_def all_sorted_def)
      have "all_sorted (fm_inodes (snd ?p))"
      proof (cases "is_dir sb0")
        case True
        with walk_all_sorted [OF s0] show ?thesis by (simp add: scan_path_def)
      next
        case d: False
        show ?thesis
        proof (cases "is_reg sb0")
          case True
          let ?e = "fm_scan_extents fd sb0 (path env) (root_file env) (scan_start sb0)"
          from fm_scan_extents_all_sorted [of fd sb0 "path env" "root_file env" "scan_start sb0"
              "fst ?e" "snd ?e"] s0 d True
          show ?thesis by (simp add: scan_path_def)
        next
          case False
          with d s0 show ?thesis by (simp add: scan_path_def fail_def)
        qed
      qed
      moreover obtain r s where p: "?p = (r, s)" by (cases ?p)
      ultimately have "all_sorted (fm_inodes s)" by simp
      with main_scanned [OF c op Some, of ld opts] p show ?thesis
        by (cases r) (auto simp: sort_and_report_def split: option.splits sum.splits)
    qed
  qed
qed

text \<open>
  Claim C7. After a call of \<^verbatim>\<open>fm_scan_extents\<close> that has returned \<^verbatim>\<open>true\<close>, for a new or an
  existing inode, the name list of the inode of that number is the old list (empty for a
  new inode) with the one new name, sorted: it has exactly the old names and the new one, it
  is ordered by \<^verbatim>\<open>strcmp\<close>, and its head compares less than or equal to each of its names;
  the names of the inodes of the other numbers are as before. Every call, whatever it
  returns, leaves every name list of the table sorted, and so does every call of
  \<^verbatim>\<open>fm_scan_directory\<close>; every name list is sorted when \<^verbatim>\<open>main\<close> ends.
\<close>

theorem names_sorted_after_every_call:
  "(fm_scan_extents fd sb0 abspath env s = (RET_TRUE, s')
      \<longrightarrow> (\<exists>fi. find_inode (fm_inodes s') (st_ino sb0) = Some fi
            \<and> mset (names fi)
                = add_mset (new_name sb0 abspath) (mset (names_of (fm_inodes s) (st_ino sb0)))
            \<and> length (names fi) = length (names_of (fm_inodes s) (st_ino sb0)) + 1
            \<and> names_sorted (names fi)
            \<and> (\<forall>n \<in> set (names fi). strcmp (hd (names fi)) n \<le> 0))
          \<and> (\<forall>j. j \<noteq> st_ino sb0 \<longrightarrow> names_of (fm_inodes s') j = names_of (fm_inodes s) j))
   \<and> (all_sorted (fm_inodes s)
      \<longrightarrow> all_sorted (fm_inodes (snd (fm_scan_extents fd sb0 abspath env s)))
          \<and> all_sorted (fm_inodes (snd (fm_scan_directory opts fd sb0 abspath denv s))))
   \<and> all_sorted (fm_inodes (snd (main ld opts menv)))"
proof (intro conjI impI)
  assume run: "fm_scan_extents fd sb0 abspath env s = (RET_TRUE, s')"
  from fm_scan_extents_names [OF run] obtain fi where
    fi: "find_inode (fm_inodes s') (st_ino sb0) = Some fi"
    "names fi = DL_SORT fm_sortby_filename_cb
         (names_of (fm_inodes s) (st_ino sb0) @ [new_name sb0 abspath])"
    and others: "\<forall>j. j \<noteq> st_ino sb0 \<longrightarrow> names_of (fm_inodes s') j = names_of (fm_inodes s) j"
    by blast
  from fi(2) have m: "mset (names fi)
      = add_mset (new_name sb0 abspath) (mset (names_of (fm_inodes s) (st_ino sb0)))" by simp
  from m have l: "length (names fi) = length (names_of (fm_inodes s) (st_ino sb0)) + 1"
    by (metis Suc_eq_plus1 size_add_mset size_mset)
  from fi(2) have so: "names_sorted (names fi)" by (simp add: sorted_DL_SORT)
  then have h: "\<forall>n \<in> set (names fi). strcmp (hd (names fi)) n \<le> 0"
    by (blast intro: names_sorted_hd)
  from fi(1) m l so h
  show "\<exists>fi. find_inode (fm_inodes s') (st_ino sb0) = Some fi
            \<and> mset (names fi)
                = add_mset (new_name sb0 abspath) (mset (names_of (fm_inodes s) (st_ino sb0)))
            \<and> length (names fi) = length (names_of (fm_inodes s) (st_ino sb0)) + 1
            \<and> names_sorted (names fi)
            \<and> (\<forall>n \<in> set (names fi). strcmp (hd (names fi)) n \<le> 0)"
    by blast
  from others show "\<forall>j. j \<noteq> st_ino sb0 \<longrightarrow> names_of (fm_inodes s') j = names_of (fm_inodes s) j" .
next
  assume inv: "all_sorted (fm_inodes s)"
  let ?e = "fm_scan_extents fd sb0 abspath env s"
  from fm_scan_extents_all_sorted [of fd sb0 abspath env s "fst ?e" "snd ?e"] inv
  show "all_sorted (fm_inodes (snd ?e))" by simp
  from inv show "all_sorted (fm_inodes (snd (fm_scan_directory opts fd sb0 abspath denv s)))"
    by (rule walk_all_sorted)
next
  show "all_sorted (fm_inodes (snd (main ld opts menv)))" by (rule main_all_sorted)
qed

text \<open>The table after the name \<^verbatim>\<open>/mnt/b\<close> of the inode 11 has been scanned; the name
  \<^verbatim>\<open>/mnt/a\<close> of the same inode comes next.\<close>

definition one_name :: fm_globals where
  "one_name = snd (fm_scan_extents 4 (sb_reg 11) ''/mnt/b'' (env_ok 1 1 [slot 0 1]) globals_4096)"

theorem names_sorted_after_every_call_witness:
  "all_sorted (fm_inodes one_name)
   \<and> names_of (fm_inodes one_name) 11 = [''/mnt/b'']
   \<and> fst (fm_scan_extents 5 (sb_reg 11) ''/mnt/a'' (env_ok 1 1 [slot 0 1]) one_name) = RET_TRUE
   \<and> names_of (fm_inodes (snd (fm_scan_extents 5 (sb_reg 11) ''/mnt/a'' (env_ok 1 1 [slot 0 1])
        one_name))) 11 = [''/mnt/a'', ''/mnt/b'']
   \<and> all_sorted (fm_inodes (snd (fm_scan_extents 5 (sb_reg 11) ''/mnt/a'' (env_ok 1 1 [slot 0 1])
        one_name)))
   \<and> (\<exists>fi. find_inode (fm_inodes (snd (fm_scan_extents 5 (sb_reg 11) ''/mnt/a''
              (env_ok 1 1 [slot 0 1]) one_name))) 11 = Some fi
        \<and> length (names fi) = 2 \<and> names_sorted (names fi))"
proof -
  let ?e = "fm_scan_extents 5 (sb_reg 11) ''/mnt/a'' (env_ok 1 1 [slot 0 1]) one_name"
  have k: "st_ino (sb_reg 11) = 11" by (simp add: sb_reg_def)
  have n1: "names_of (fm_inodes one_name) 11 = [''/mnt/b'']"
    by (simp add: one_name_def names_of_def scan_eval sb_reg_def globals_4096_def
        initial_globals_def)
  have tbl: "map names (fm_inodes one_name) = [[''/mnt/b'']]"
    by (simp add: one_name_def scan_eval sb_reg_def globals_4096_def initial_globals_def)
  have "all_sorted (fm_inodes one_name) \<longleftrightarrow> list_all names_sorted (map names (fm_inodes one_name))"
    by (simp add: all_sorted_def list_all_iff)
  then have inv: "all_sorted (fm_inodes one_name)"
    unfolding tbl by (simp add: names_sorted_def)
  have ok: "fst ?e = RET_TRUE"
    by (simp add: one_name_def scan_eval sb_reg_def globals_4096_def initial_globals_def)
  then have run: "?e = (RET_TRUE, snd ?e)" by (metis prod.collapse)
  have n2: "names_of (fm_inodes (snd ?e)) 11 = [''/mnt/a'', ''/mnt/b'']"
    by (simp add: one_name_def names_of_def scan_eval sb_reg_def globals_4096_def
        initial_globals_def)
  from names_sorted_after_every_call [where fd = 5 and ?sb0.0 = "sb_reg 11"
      and abspath = "''/mnt/a''" and env = "env_ok 1 1 [slot 0 1]" and s = one_name
      and s' = "snd ?e" and opts = default_options and denv = no_dir and ld = id
      and menv = "main_env_of End_of_directory"] run inv n1
  have a: "all_sorted (fm_inodes (snd ?e))"
    and b: "\<exists>fi. find_inode (fm_inodes (snd ?e)) 11 = Some fi
        \<and> length (names fi) = 2 \<and> names_sorted (names fi)"
    by (auto simp: k)
  with inv n1 ok n2 show ?thesis by simp
qed

section \<open>Names of the same inode\<close>

text \<open>The extents of the table that belong to the inode \<open>k\<close>, and the number of inodes of the
  table with the number \<open>k\<close>.\<close>

definition extents_of :: "fm_globals \<Rightarrow> u64 \<Rightarrow> fm_extent list" where
  "extents_of s k = filter (\<lambda>e. inode e = k) (fm_extents s)"

definition records_of :: "fm_globals \<Rightarrow> u64 \<Rightarrow> nat" where
  "records_of s k = length (filter (\<lambda>fi. inum fi = k) (fm_inodes s))"

definition names_for :: "u64 \<Rightarrow> scan_call list \<Rightarrow> nat" where
  "names_for k cs = length (filter (\<lambda>c. call_ino c = k) cs)"

lemma append_name_inum: "inum (append_name n x) = inum x"
  by (simp add: append_name_facts)

text \<open>What a call that returns \<^verbatim>\<open>true\<close> does to the tables, by whether its inode was
  there.\<close>

lemma call_present:
  assumes run: "fm_scan_extents fd sb0 abspath env s = (RET_TRUE, s')"
    and present: "find_inode (fm_inodes s) (st_ino sb0) = Some fi"
  shows "fm_inodes s' = update_inode (st_ino sb0) (append_name (new_name sb0 abspath)) (fm_inodes s)"
    and "fm_extents s' = fm_extents s"
  using run present by (cases rule: fm_scan_extents_cases; simp)+

lemma call_new:
  assumes run: "fm_scan_extents fd sb0 abspath env s = (RET_TRUE, s')"
    and new: "find_inode (fm_inodes s) (st_ino sb0) = None"
  shows "\<exists>fi mapped slots. fm_inodes s' = fm_inodes s @ [fi] \<and> inum fi = st_ino sb0
     \<and> namecount fi = 1 \<and> names fi = [new_name sb0 abspath]
     \<and> ioctl_map env = Some (mapped, slots) \<and> extcount fi = of_nat (unat mapped)
     \<and> fm_extents s' = fm_extents s @ map (new_extent (st_ino sb0) slots) [0 ..< unat mapped]"
  using run
proof (cases rule: fm_scan_extents_cases)
  case (present_ok fi)
  with new show ?thesis by simp
next
  case (new_ok s1)
  from installed_inode [OF new_ok(2)] obtain fi mapped slots where
    fi: "fm_inodes s1 = fm_inodes s @ [fi]" "inum fi = st_ino sb0" "names fi = []"
    "namecount fi = 0" "ioctl_map env = Some (mapped, slots)" "extcount fi = of_nat (unat mapped)"
    "fm_extents s1 = fm_extents s @ map (new_extent (st_ino sb0) slots) [0 ..< unat mapped]"
    by blast
  let ?fi = "append_name (new_name sb0 abspath) fi"
  from fi new new_ok(5)
  have "fm_inodes s' = fm_inodes s @ [?fi] \<and> inum ?fi = st_ino sb0
     \<and> namecount ?fi = 1 \<and> names ?fi = [new_name sb0 abspath]
     \<and> ioctl_map env = Some (mapped, slots) \<and> extcount ?fi = of_nat (unat mapped)
     \<and> fm_extents s' = fm_extents s @ map (new_extent (st_ino sb0) slots) [0 ..< unat mapped]"
    by (simp add: update_inode_append append_name_def DL_SORT_def)
  then show ?thesis by blast
qed simp_all

text \<open>A call that returns \<^verbatim>\<open>true\<close>, seen from the inode \<open>k\<close> that is in the table once.\<close>

lemma call_keeps:
  assumes run: "fm_scan_extents fd sb0 abspath env s = (RET_TRUE, s')"
    and there: "find_inode (fm_inodes s) k = Some fi" "records_of s k = 1"
  shows "\<exists>fi'. find_inode (fm_inodes s') k = Some fi' \<and> records_of s' k = 1
     \<and> namecount fi' = namecount fi + (if st_ino sb0 = k then 1 else 0)
     \<and> length (names fi') = length (names fi) + (if st_ino sb0 = k then 1 else 0)
     \<and> extcount fi' = extcount fi \<and> iflags fi' = iflags fi
     \<and> extents_of s' k = extents_of s k"
proof (cases "find_inode (fm_inodes s) (st_ino sb0)")
  case None
  with there have ne: "st_ino sb0 \<noteq> k" by auto
  from call_new [OF run None] obtain x and mapped :: u32 and slots where
    x: "fm_inodes s' = fm_inodes s @ [x]" "inum x = st_ino sb0"
    "fm_extents s' = fm_extents s @ map (new_extent (st_ino sb0) slots) [0 ..< unat mapped]"
    by blast
  from x ne there show ?thesis
    by (simp add: find_inode_append records_of_def extents_of_def new_extent_def)
next
  case (Some y)
  note p = call_present [OF run Some]
  let ?f = "append_name (new_name sb0 abspath)"
  have rec: "records_of s' k = records_of s k"
  proof -
    have "length (filter (\<lambda>fi. inum fi = k) (update_inode (st_ino sb0) ?f (fm_inodes s)))
        = length (filter (\<lambda>j. j = k) (map inum (update_inode (st_ino sb0) ?f (fm_inodes s))))"
      by (simp add: filter_map comp_def)
    also have "\<dots> = length (filter (\<lambda>j. j = k) (map inum (fm_inodes s)))"
      by (simp add: map_inum_update [OF append_name_inum])
    also have "\<dots> = length (filter (\<lambda>fi. inum fi = k) (fm_inodes s))"
      by (simp add: filter_map comp_def)
    finally show ?thesis using p(1) by (simp add: records_of_def)
  qed
  show ?thesis
  proof (cases "st_ino sb0 = k")
    case True
    with there Some have "y = fi" by simp
    with p True there rec show ?thesis
      by (simp add: find_inode_update [OF append_name_inum] extents_of_def append_name_facts
          append_name_def flip: size_mset)
  next
    case False
    with p there rec show ?thesis
      by (simp add: find_inode_update [OF append_name_inum] extents_of_def)
  qed
qed

lemma scan_calls_present:
  assumes "scan_calls cs s = (RET_TRUE, s')"
    and "find_inode (fm_inodes s) k = Some fi" "records_of s k = 1"
  shows "\<exists>fi'. find_inode (fm_inodes s') k = Some fi' \<and> records_of s' k = 1
     \<and> namecount fi' = namecount fi + of_nat (names_for k cs)
     \<and> length (names fi') = length (names fi) + names_for k cs
     \<and> extcount fi' = extcount fi \<and> iflags fi' = iflags fi
     \<and> extents_of s' k = extents_of s k"
  using assms
proof (induction cs arbitrary: s fi)
  case Nil
  then show ?case by (simp add: names_for_def)
next
  case (Cons c cs)
  obtain fd sb0 abspath env where c: "c = (fd, sb0, abspath, env)" by (cases c)
  obtain r s1 where e: "fm_scan_extents fd sb0 abspath env s = (r, s1)"
    by (cases "fm_scan_extents fd sb0 abspath env s")
  from Cons.prems(1) c e have r: "r = RET_TRUE" by (cases r) simp_all
  with Cons.prems(1) c e have rest: "scan_calls cs s1 = (RET_TRUE, s')" by simp
  from call_keeps [OF e [unfolded r] Cons.prems(2,3)] obtain fi1 where
    1: "find_inode (fm_inodes s1) k = Some fi1" "records_of s1 k = 1"
    "namecount fi1 = namecount fi + (if st_ino sb0 = k then 1 else 0)"
    "length (names fi1) = length (names fi) + (if st_ino sb0 = k then 1 else 0)"
    "extcount fi1 = extcount fi" "iflags fi1 = iflags fi" "extents_of s1 k = extents_of s k"
    by blast
  from Cons.IH [OF rest 1(1,2)] obtain fi' where
    2: "find_inode (fm_inodes s') k = Some fi'" "records_of s' k = 1"
    "namecount fi' = namecount fi1 + of_nat (names_for k cs)"
    "length (names fi') = length (names fi1) + names_for k cs"
    "extcount fi' = extcount fi1" "iflags fi' = iflags fi1" "extents_of s' k = extents_of s1 k"
    by blast
  have n: "names_for k (c # cs) = (if st_ino sb0 = k then 1 else 0) + names_for k cs"
    by (simp add: names_for_def call_ino_def c)
  from 1 2 n have "find_inode (fm_inodes s') k = Some fi' \<and> records_of s' k = 1
     \<and> namecount fi' = namecount fi + of_nat (names_for k (c # cs))
     \<and> length (names fi') = length (names fi) + names_for k (c # cs)
     \<and> extcount fi' = extcount fi \<and> iflags fi' = iflags fi
     \<and> extents_of s' k = extents_of s k"
    by simp
  then show ?case by blast
qed

lemma scan_calls_new:
  assumes "scan_calls cs s = (RET_TRUE, s')"
    and "find_inode (fm_inodes s) k = None"
    and "find (\<lambda>c. call_ino c = k) cs = Some (fd0, sb1, abspath0, env0)"
  shows "\<exists>fi' mapped slots. find_inode (fm_inodes s') k = Some fi' \<and> records_of s' k = 1
     \<and> namecount fi' = of_nat (names_for k cs)
     \<and> length (names fi') = names_for k cs
     \<and> ioctl_map env0 = Some (mapped, slots)
     \<and> extcount fi' = of_nat (unat mapped)
     \<and> extents_of s' k = extents_of s k @ map (new_extent k slots) [0 ..< unat mapped]"
  using assms
proof (induction cs arbitrary: s)
  case Nil
  then show ?case by simp
next
  case (Cons c cs)
  obtain fd sb0 abspath env where c: "c = (fd, sb0, abspath, env)" by (cases c)
  obtain r s1 where e: "fm_scan_extents fd sb0 abspath env s = (r, s1)"
    by (cases "fm_scan_extents fd sb0 abspath env s")
  from Cons.prems(1) c e have r: "r = RET_TRUE" by (cases r) simp_all
  with Cons.prems(1) c e have rest: "scan_calls cs s1 = (RET_TRUE, s')" by simp
  note run = e [unfolded r]
  have n: "names_for k (c # cs) = (if st_ino sb0 = k then 1 else 0) + names_for k cs"
    by (simp add: names_for_def call_ino_def c)
  show ?case
  proof (cases "st_ino sb0 = k")
    case True
    with Cons.prems(3) c have first: "fd0 = fd" "sb1 = sb0" "abspath0 = abspath" "env0 = env"
      by (simp_all add: call_ino_def)
    from Cons.prems(2) True have new: "find_inode (fm_inodes s) (st_ino sb0) = None" by simp
    from call_new [OF run new] obtain fi mapped slots where
      fi: "fm_inodes s1 = fm_inodes s @ [fi]" "inum fi = st_ino sb0" "namecount fi = 1"
      "names fi = [new_name sb0 abspath]" "ioctl_map env = Some (mapped, slots)"
      "extcount fi = of_nat (unat mapped)"
      "fm_extents s1 = fm_extents s @ map (new_extent (st_ino sb0) slots) [0 ..< unat mapped]"
      by blast
    from Cons.prems(2) have none: "filter (\<lambda>x. inum x = k) (fm_inodes s) = []"
      by (auto simp: find_inode_None filter_empty_conv)
    from fi True Cons.prems(2) none have 1: "find_inode (fm_inodes s1) k = Some fi"
      "records_of s1 k = 1"
      by (simp_all add: find_inode_append records_of_def)
    have own: "extents_of s1 k = extents_of s k @ map (new_extent k slots) [0 ..< unat mapped]"
      using fi(7) True by (simp add: extents_of_def new_extent_def filter_map comp_def)
    from scan_calls_present [OF rest 1] obtain fi' where
      2: "find_inode (fm_inodes s') k = Some fi'" "records_of s' k = 1"
      "namecount fi' = namecount fi + of_nat (names_for k cs)"
      "length (names fi') = length (names fi) + names_for k cs"
      "extcount fi' = extcount fi" "extents_of s' k = extents_of s1 k"
      by blast
    from 2 fi n True own first
    have "find_inode (fm_inodes s') k = Some fi' \<and> records_of s' k = 1
     \<and> namecount fi' = of_nat (names_for k (c # cs))
     \<and> length (names fi') = names_for k (c # cs)
     \<and> ioctl_map env0 = Some (mapped, slots)
     \<and> extcount fi' = of_nat (unat mapped)
     \<and> extents_of s' k = extents_of s k @ map (new_extent k slots) [0 ..< unat mapped]"
      by simp
    then show ?thesis by blast
  next
    case False
    with Cons.prems(3) c have later: "find (\<lambda>c. call_ino c = k) cs = Some (fd0, sb1, abspath0, env0)"
      by (simp add: call_ino_def)
    have absent: "find_inode (fm_inodes s1) k = None \<and> extents_of s1 k = extents_of s k"
    proof (cases "find_inode (fm_inodes s) (st_ino sb0)")
      case None
      from call_new [OF run None] obtain x and mapped :: u32 and slots where
        "fm_inodes s1 = fm_inodes s @ [x]" "inum x = st_ino sb0"
        "fm_extents s1 = fm_extents s @ map (new_extent (st_ino sb0) slots) [0 ..< unat mapped]"
        by blast
      with False Cons.prems(2) show ?thesis
        by (simp add: find_inode_append extents_of_def new_extent_def)
    next
      case (Some y)
      from call_present [OF run Some] False Cons.prems(2) show ?thesis
        by (simp add: find_inode_update [OF append_name_inum] extents_of_def)
    qed
    from absent have a1: "find_inode (fm_inodes s1) k = None" by simp
    from Cons.IH [OF rest a1 later] obtain fi' mapped slots where
      "find_inode (fm_inodes s') k = Some fi'" "records_of s' k = 1"
      "namecount fi' = of_nat (names_for k cs)" "length (names fi') = names_for k cs"
      "ioctl_map env0 = Some (mapped, slots)" "extcount fi' = of_nat (unat mapped)"
      "extents_of s' k = extents_of s1 k @ map (new_extent k slots) [0 ..< unat mapped]"
      by blast
    with n False absent
    have "find_inode (fm_inodes s') k = Some fi' \<and> records_of s' k = 1
     \<and> namecount fi' = of_nat (names_for k (c # cs))
     \<and> length (names fi') = names_for k (c # cs)
     \<and> ioctl_map env0 = Some (mapped, slots)
     \<and> extcount fi' = of_nat (unat mapped)
     \<and> extents_of s' k = extents_of s k @ map (new_extent k slots) [0 ..< unat mapped]"
      by simp
    then show ?thesis by blast
  qed
qed

text \<open>
  Claim C3. A call of \<^verbatim>\<open>fm_scan_extents\<close> for an inode number that is in the table makes
  no extent query and leaves the table of extents alone; when its \<^verbatim>\<open>calloc\<close> succeeds it
  returns \<^verbatim>\<open>true\<close> and has only counted a file or a directory, appended the new name to
  the sorted name list of that inode with its name count increased by one, and closed the
  descriptor. In a scan whose calls all return \<^verbatim>\<open>true\<close> and that starts without the inode
  number \<open>k\<close> in the table, when \<open>k\<close> is the number of \<open>N > 0\<close> of the calls, the table holds
  exactly one inode with the number \<open>k\<close>, with the name count \<open>N\<close> and \<open>N\<close> names, and its
  extent count and its extents are those of the one query of the first of these calls.
\<close>

theorem hardlinks_share_one_inode:
  "(find_inode (fm_inodes s) (st_ino sb0) = Some fi
      \<longrightarrow> fm_extents (snd (fm_scan_extents fd sb0 abspath env s)) = fm_extents s
          \<and> (\<forall>ok. Did FS_IOC_FIEMAP ok
                 \<notin> set (added s (snd (fm_scan_extents fd sb0 abspath env s))))
          \<and> (calloc_name_ok env
               \<longrightarrow> fm_scan_extents fd sb0 abspath env s =
                   (RET_TRUE,
                    s\<lparr>fm_dir_count := (if is_dir sb0 then fm_dir_count s + 1 else fm_dir_count s),
                      fm_file_count := (if is_dir sb0 then fm_file_count s else fm_file_count s + 1),
                      fm_inodes := update_inode (st_ino sb0) (append_name (new_name sb0 abspath))
                                     (fm_inodes s),
                      trace := trace s @ [Did CALLOC True, Close fd]\<rparr>)))
   \<and> (scan_calls cs s0 = (RET_TRUE, s') \<and> find_inode (fm_inodes s0) k = None
        \<and> find (\<lambda>c. call_ino c = k) cs = Some (fd0, sb1, abspath0, env0)
      \<longrightarrow> (\<exists>fi' mapped slots.
            find_inode (fm_inodes s') k = Some fi' \<and> records_of s' k = 1
            \<and> namecount fi' = of_nat (names_for k cs)
            \<and> length (names fi') = names_for k cs
            \<and> ioctl_map env0 = Some (mapped, slots)
            \<and> extcount fi' = of_nat (unat mapped)
            \<and> extents_of s' k = extents_of s0 k @ map (new_extent k slots) [0 ..< unat mapped]))"
proof (intro conjI impI)
  assume present: "find_inode (fm_inodes s) (st_ino sb0) = Some fi"
  let ?e = "fm_scan_extents fd sb0 abspath env s"
  have e: "?e = add_name fd sb0 abspath env s" using present by (rule fm_scan_extents_present)
  show "fm_extents (snd ?e) = fm_extents s" unfolding e by (simp add: add_name_cases)
  show "\<forall>ok. Did FS_IOC_FIEMAP ok \<notin> set (added s (snd ?e))"
    unfolding e by (simp add: add_name_cases)
  show "calloc_name_ok env \<Longrightarrow> ?e =
      (RET_TRUE,
       s\<lparr>fm_dir_count := (if is_dir sb0 then fm_dir_count s + 1 else fm_dir_count s),
         fm_file_count := (if is_dir sb0 then fm_file_count s else fm_file_count s + 1),
         fm_inodes := update_inode (st_ino sb0) (append_name (new_name sb0 abspath))
                        (fm_inodes s),
         trace := trace s @ [Did CALLOC True, Close fd]\<rparr>)"
    unfolding e by (simp add: add_name_cases named_def)
next
  assume h: "scan_calls cs s0 = (RET_TRUE, s') \<and> find_inode (fm_inodes s0) k = None
        \<and> find (\<lambda>c. call_ino c = k) cs = Some (fd0, sb1, abspath0, env0)"
  then have 1: "scan_calls cs s0 = (RET_TRUE, s')" and 2: "find_inode (fm_inodes s0) k = None"
    and 3: "find (\<lambda>c. call_ino c = k) cs = Some (fd0, sb1, abspath0, env0)" by simp_all
  from 1 2 3 show "\<exists>fi' mapped slots.
            find_inode (fm_inodes s') k = Some fi' \<and> records_of s' k = 1
            \<and> namecount fi' = of_nat (names_for k cs)
            \<and> length (names fi') = names_for k cs
            \<and> ioctl_map env0 = Some (mapped, slots)
            \<and> extcount fi' = of_nat (unat mapped)
            \<and> extents_of s' k = extents_of s0 k @ map (new_extent k slots) [0 ..< unat mapped]"
    by (rule scan_calls_new)
qed

text \<open>Three names of the inode 11, with a name of the inode 12 between them. For the second
  and the third name of the inode 11 the environment would fail the extent query, if there
  were one.\<close>

definition four_calls :: "scan_call list" where
  "four_calls =
     [(4, sb_reg 11, ''/mnt/b'', env_ok 1 1 [slot 0 1]),
      (5, sb_reg 12, ''/mnt/c'', env_ok 1 1 [slot 4096 1]),
      (6, sb_reg 11, ''/mnt/a'', env_ioctl_fails),
      (7, sb_reg 11, ''/mnt/d'', env_ioctl_fails)]"

theorem hardlinks_share_one_inode_witness:
  "fst (scan_calls four_calls globals_4096) = RET_TRUE
   \<and> find_inode (fm_inodes globals_4096) 11 = None
   \<and> find (\<lambda>c. call_ino c = 11) four_calls = Some (4, sb_reg 11, ''/mnt/b'', env_ok 1 1 [slot 0 1])
   \<and> names_for 11 four_calls = 3
   \<and> names_of (fm_inodes (snd (scan_calls four_calls globals_4096))) 11
       = [''/mnt/a'', ''/mnt/b'', ''/mnt/d'']
   \<and> (\<exists>fi'. find_inode (fm_inodes (snd (scan_calls four_calls globals_4096))) 11 = Some fi'
         \<and> records_of (snd (scan_calls four_calls globals_4096)) 11 = 1
         \<and> namecount fi' = 3 \<and> extcount fi' = 1)
   \<and> find_inode (fm_inodes one_name) (st_ino (sb_reg 11)) \<noteq> None
   \<and> fst (fm_scan_extents 6 (sb_reg 11) ''/mnt/a'' env_ioctl_fails one_name) = RET_TRUE"
proof -
  let ?r = "scan_calls four_calls globals_4096"
  have ok: "fst ?r = RET_TRUE"
    by (simp add: four_calls_def scan_eval env_ioctl_fails_def sb_reg_def globals_4096_def
        initial_globals_def)
  then have run: "?r = (RET_TRUE, snd ?r)" by (metis prod.collapse)
  have new: "find_inode (fm_inodes globals_4096) 11 = None"
    by (simp add: globals_4096_def initial_globals_def find_inode_def)
  have first: "find (\<lambda>c. call_ino c = 11) four_calls
      = Some (4, sb_reg 11, ''/mnt/b'', env_ok 1 1 [slot 0 1])"
    by (simp add: four_calls_def call_ino_def sb_reg_def)
  have n: "names_for 11 four_calls = 3"
    by (simp add: names_for_def four_calls_def call_ino_def sb_reg_def)
  have ns: "names_of (fm_inodes (snd ?r)) 11 = [''/mnt/a'', ''/mnt/b'', ''/mnt/d'']"
    by (simp add: names_of_def four_calls_def scan_eval env_ioctl_fails_def sb_reg_def
        globals_4096_def initial_globals_def)
  obtain y where p: "find_inode (fm_inodes one_name) (st_ino (sb_reg 11)) = Some y"
    by (simp add: one_name_def scan_eval sb_reg_def globals_4096_def initial_globals_def)
  have c: "calloc_name_ok env_ioctl_fails" by (simp add: env_ioctl_fails_def)
  from hardlinks_share_one_inode [where s = one_name and ?sb0.0 = "sb_reg 11" and fi = y
      and fd = 6 and abspath = "''/mnt/a''" and env = env_ioctl_fails
      and cs = four_calls and ?s0.0 = globals_4096 and s' = "snd ?r" and k = 11
      and ?fd0.0 = 4 and ?sb1.0 = "sb_reg 11" and ?abspath0.0 = "''/mnt/b''"
      and ?env0.0 = "env_ok 1 1 [slot 0 1]"] run new first p c
  have a: "fst (fm_scan_extents 6 (sb_reg 11) ''/mnt/a'' env_ioctl_fails one_name) = RET_TRUE"
    and b: "\<exists>fi' mapped slots.
            find_inode (fm_inodes (snd ?r)) 11 = Some fi' \<and> records_of (snd ?r) 11 = 1
            \<and> namecount fi' = of_nat (names_for 11 four_calls)
            \<and> ioctl_map (env_ok 1 1 [slot 0 1]) = Some (mapped, slots)
            \<and> extcount fi' = of_nat (unat mapped)"
    by auto
  from b n have "\<exists>fi'. find_inode (fm_inodes (snd ?r)) 11 = Some fi' \<and> records_of (snd ?r) 11 = 1
         \<and> namecount fi' = 3 \<and> extcount fi' = 1"
    by (auto simp: env_ok_def)
  with ok new first n ns p a show ?thesis by simp
qed

section \<open>The aggregate statistics\<close>

definition is_fragmented_line :: "out_line \<Rightarrow> bool" where
  "is_fragmented_line l = (case l of Fragmented_inodes a b p q \<Rightarrow> True | _ \<Rightarrow> False)"

text \<open>A format at least as precise as the binary64 format: between 1/4 and 64 in absolute
  value, rounding changes a number by at most the 2 ^ 53-th part of it.\<close>

definition accurate :: "(real \<Rightarrow> real) \<Rightarrow> bool" where
  "accurate ld \<longleftrightarrow> (\<forall>x. 1 / 4 \<le> \<bar>x\<bar> \<and> \<bar>x\<bar> \<le> 64 \<longrightarrow> \<bar>ld x - x\<bar> \<le> \<bar>x\<bar> / 2 ^ 53)"

lemma fold_tally:
  "fold tally tbl (a, b) =
     (a + sum_list (map extcount (filter fragmented tbl)), b + of_nat (length (filter fragmented tbl)))"
  by (induction tbl arbitrary: a b) (simp_all add: tally_def fragmented_def add.assoc)

lemma fragged_totals_eq:
  "fragged_totals tbl =
     (sum_list (map extcount (filter fragmented tbl)), of_nat (length (filter fragmented tbl)))"
  by (simp add: fragged_totals_def fold_tally)

lemma print_rows_no_line:
  "print_rows fo tbl es = Inr rows \<Longrightarrow> filter is_fragmented_line rows = []"
proof (induction es arbitrary: tbl rows)
  case Nil
  then show ?case by simp
next
  case (Cons e es)
  have nr: "\<And>ino. filter is_fragmented_line (name_rows e ino) = []"
    by (auto simp: name_rows_def is_fragmented_line_def filter_empty_conv split: list.splits)
  from Cons.prems Cons.IH show ?case
    by (auto simp: nr split: option.splits if_splits sum.splits)
qed

lemma preamble_line:
  "filter is_fragmented_line (preamble ld opts s fe fi) =
     (if fi \<noteq> 0
      then [Fragmented_inodes fi (fm_inode_count s)
              (map_option fmt2 (inofragpcnt ld fi (fm_inode_count s)))
              (map_option fmt2 (extfragratio ld fe fi))]
      else [])"
  by (simp add: preamble_def is_fragmented_line_def Let_def)

lemma fm_print_results_line:
  assumes "fm_print_results ld opts s = Inr out"
  shows "filter is_fragmented_line out =
     (if fm_extent_count s \<noteq> 0 \<and> \<not> fm_skip_preamble opts
         \<and> snd (fragged_totals (fm_inodes s)) \<noteq> 0
      then [Fragmented_inodes (snd (fragged_totals (fm_inodes s))) (fm_inode_count s)
              (map_option fmt2
                 (inofragpcnt ld (snd (fragged_totals (fm_inodes s))) (fm_inode_count s)))
              (map_option fmt2
                 (extfragratio ld (fst (fragged_totals (fm_inodes s)))
                    (snd (fragged_totals (fm_inodes s)))))]
      else [])"
proof (cases "fm_extent_count s = 0")
  case True
  with assms show ?thesis by (simp add: fm_print_results_def)
next
  case False
  obtain fe fi where t: "fragged_totals (fm_inodes s) = (fe, fi)"
    by (cases "fragged_totals (fm_inodes s)")
  let ?pre = "if fm_skip_preamble opts then [] else preamble ld opts s fe fi"
  have pre: "filter is_fragmented_line ?pre =
      (if \<not> fm_skip_preamble opts \<and> fi \<noteq> 0
       then [Fragmented_inodes fi (fm_inode_count s)
              (map_option fmt2 (inofragpcnt ld fi (fm_inode_count s)))
              (map_option fmt2 (extfragratio ld fe fi))]
       else [])"
    by (simp add: preamble_line)
  show ?thesis
  proof (cases "fm_fragmented_only opts \<and> fi = 0")
    case True
    with assms False t have "out = ?pre"
      by (auto simp: fm_print_results_def Let_def split: if_splits)
    with pre False t show ?thesis by simp
  next
    case nf: False
    with assms False t obtain rows where
      r: "print_rows (fm_fragmented_only opts) (fm_inodes s) (fm_extents s) = Inr rows"
      "out = ?pre @ [Blank, Table_header] @ rows"
      by (auto simp: fm_print_results_def Let_def split: sum.splits)
    from print_rows_no_line [OF r(1)] r(2) pre False t show ?thesis
      by (simp add: is_fragmented_line_def)
  qed
qed

lemma round_half_even_near:
  assumes "of_int n - 1 / 2 < y" "y < of_int n + 1 / 2"
  shows "round_half_even y = n"
proof (cases "of_int n \<le> y")
  case True
  with assms have "\<lfloor>y\<rfloor> = n" by (intro floor_unique) auto
  with assms True show ?thesis by (simp add: round_half_even_def)
next
  case False
  with assms have f: "\<lfloor>y\<rfloor> = n - 1" by (intro floor_unique) auto
  with assms False show ?thesis by (simp add: round_half_even_def)
qed

lemma accurate_bounds:
  assumes "accurate ld" "1 / 4 \<le> x" "x \<le> 64"
  shows "x * (1 - 1 / 1000000) \<le> ld x" "ld x \<le> x * (1 + 1 / 1000000)"
proof -
  from assms(2) have x: "\<bar>x\<bar> = x" by simp
  from assms(1) have "1 / 4 \<le> \<bar>x\<bar> \<and> \<bar>x\<bar> \<le> 64 \<longrightarrow> \<bar>ld x - x\<bar> \<le> \<bar>x\<bar> / 2 ^ 53"
    unfolding accurate_def by (rule spec)
  with assms(2,3) x have "\<bar>ld x - x\<bar> \<le> x / 2 ^ 53" by simp
  moreover from assms(2) have "x / 2 ^ 53 \<le> x / 1000000" by simp
  ultimately have d: "\<bar>ld x - x\<bar> \<le> x / 1000000" by linarith
  have e: "x * (1 - 1 / 1000000) = x - x / 1000000" "x * (1 + 1 / 1000000) = x + x / 1000000"
    by (simp_all add: algebra_simps)
  from d show "x * (1 - 1 / 1000000) \<le> ld x" unfolding e by linarith
  from d show "ld x \<le> x * (1 + 1 / 1000000)" unfolding e by linarith
qed

lemma quotient_rounded:
  assumes acc: "accurate ld"
    and num: "1 / 4 \<le> a" "a \<le> 64" and den: "1 / 4 \<le> b" "b \<le> 64"
    and lo: "l * (b * (1 + 1 / 1000000)) \<le> a * (1 - 1 / 1000000)"
    and hi: "a * (1 + 1 / 1000000) \<le> h * (b * (1 - 1 / 1000000))"
    and range: "1 / 4 \<le> l" "h \<le> 64"
  shows "ld b \<noteq> 0" "l * (1 - 1 / 1000000) \<le> ld (ld a / ld b)"
    "ld (ld a / ld b) \<le> h * (1 + 1 / 1000000)"
proof -
  note A = accurate_bounds [OF acc num]
  note B = accurate_bounds [OF acc den]
  from den have "0 < b * (1 - 1 / 1000000)" by simp
  with B(1) have bpos: "0 < ld b" by linarith
  then show "ld b \<noteq> 0" by simp
  let ?q = "ld a / ld b"
  have "l * ld b \<le> ld a"
  proof -
    from range have "0 \<le> l" by simp
    with B(2) have "l * ld b \<le> l * (b * (1 + 1 / 1000000))" by (rule mult_left_mono)
    also note lo
    also note A(1)
    finally show ?thesis .
  qed
  with bpos have ql: "l \<le> ?q" by (simp add: pos_le_divide_eq)
  from ql range have h0: "0 \<le> h \<Longrightarrow> True" by simp
  have hpos: "0 \<le> h"
  proof (rule ccontr)
    assume "\<not> 0 \<le> h"
    then have "h < 0" by simp
    moreover from den have "0 < b * (1 - 1 / 1000000)" by simp
    ultimately have "h * (b * (1 - 1 / 1000000)) < 0" by (rule mult_neg_pos)
    moreover from num have "0 \<le> a * (1 + 1 / 1000000)" by simp
    ultimately show False using hi by linarith
  qed
  have "ld a \<le> h * ld b"
  proof -
    note A(2)
    also note hi
    also from B(1) hpos have "h * (b * (1 - 1 / 1000000)) \<le> h * ld b" by (rule mult_left_mono)
    finally show ?thesis .
  qed
  with bpos have qh: "?q \<le> h" by (simp add: pos_divide_le_eq)
  from ql range have q1: "1 / 4 \<le> ?q" by linarith
  from qh range have q2: "?q \<le> 64" by linarith
  note Q = accurate_bounds [OF acc q1 q2]
  have "l * (1 - 1 / 1000000) \<le> ?q * (1 - 1 / 1000000)"
    using ql by (intro mult_right_mono) simp_all
  with Q(1) show "l * (1 - 1 / 1000000) \<le> ld ?q" by linarith
  have "?q * (1 + 1 / 1000000) \<le> h * (1 + 1 / 1000000)"
    using qh by (intro mult_right_mono) simp_all
  with Q(2) show "ld ?q \<le> h * (1 + 1 / 1000000)" by linarith
qed

lemma real_unat_numeral:
  "real (unat (3 :: u64)) = 3" "real (unat (10 :: u64)) = 10" "real (unat (15 :: u64)) = 15"
  by simp_all

lemma inofragpcnt_example:
  assumes acc: "accurate ld"
  shows "map_option fmt2 (inofragpcnt ld 3 10) = Some 3000"
proof -
  have q: "ld 10 \<noteq> 0" "(299999 / 1000000) * (1 - 1 / 1000000) \<le> ld (ld 3 / ld 10)"
    "ld (ld 3 / ld 10) \<le> (300001 / 1000000) * (1 + 1 / 1000000)"
    by (rule quotient_rounded [OF acc, where a = 3 and b = 10 and l = "299999 / 1000000"
          and h = "300001 / 1000000"]; simp)+
  let ?m = "100 * ld (ld 3 / ld 10)"
  from q have m: "1 / 4 \<le> ?m" "?m \<le> 64" by simp_all
  from q have m': "29999 / 1000 \<le> ?m" "?m \<le> 30001 / 1000" by simp_all
  note M = accurate_bounds [OF acc m]
  have "?m * (1 - 1 / 1000000) = ?m - ?m / 1000000" "?m * (1 + 1 / 1000000) = ?m + ?m / 1000000"
    by (simp_all add: algebra_simps)
  with M have "?m - ?m / 1000000 \<le> ld ?m" "ld ?m \<le> ?m + ?m / 1000000" by simp_all
  with m' have v: "29998 / 1000 \<le> ld ?m" "ld ?m \<le> 30002 / 1000" by linarith+
  have "round_half_even (100 * ld ?m) = 3000"
    using v by (intro round_half_even_near) simp_all
  with q(1) show ?thesis
    by (simp add: inofragpcnt_def ld_div_def ld_mul_def ld_of_u64_def fmt2_def Let_def
        real_unat_numeral)
qed

lemma extfragratio_example:
  assumes acc: "accurate ld"
  shows "map_option fmt2 (extfragratio ld 15 3) = Some 500"
proof -
  have q: "ld 3 \<noteq> 0" "(49999 / 10000) * (1 - 1 / 1000000) \<le> ld (ld 15 / ld 3)"
    "ld (ld 15 / ld 3) \<le> (50001 / 10000) * (1 + 1 / 1000000)"
    by (rule quotient_rounded [OF acc, where a = 15 and b = 3 and l = "49999 / 10000"
          and h = "50001 / 10000"]; simp)+
  then have v: "4999 / 1000 \<le> ld (ld 15 / ld 3)" "ld (ld 15 / ld 3) \<le> 5001 / 1000"
    by simp_all
  have "round_half_even (100 * ld (ld 15 / ld 3)) = 500"
    using v by (intro round_half_even_near) simp_all
  with q(1) show ?thesis
    by (simp add: extfragratio_def ld_div_def ld_of_u64_def fmt2_def real_unat_numeral)
qed

text \<open>Ten files on the device: three fragmented ones of four, five and six extents, and
  seven empty ones, which have no extent.\<close>

definition frag_inode :: "nat \<Rightarrow> nat \<Rightarrow> fm_inode" where
  "frag_inode k n =
     \<lparr>inum = of_nat k, sb = sb_reg (of_nat k), names = [''/mnt/'' @ replicate k CHR ''f''],
      extcount = of_nat n, namecount = 1, iflags = FM_IFLAGS_FRAGMENTED\<rparr>"

definition frag_extents :: "nat \<Rightarrow> nat \<Rightarrow> fm_extent list" where
  "frag_extents k n =
     map (\<lambda>j. \<lparr>off = of_nat (k * 1048576 + 2 * j * 4096), inode = of_nat k, len = 4096,
               pos = of_nat (j + 1),
               eflags = (if j + 1 = n then FIEMAP_EXTENT_LAST else 0)\<rparr>) [0..<n]"

definition empty_inode :: "nat \<Rightarrow> fm_inode" where
  "empty_inode k =
     \<lparr>inum = of_nat k, sb = (sb_reg (of_nat k))\<lparr>st_size := 0\<rparr>,
      names = [''/mnt/'' @ replicate k CHR ''f''],
      extcount = 0, namecount = 1, iflags = 0\<rparr>"

definition ten_inodes :: fm_globals where
  "ten_inodes =
     globals_4096
       \<lparr>fm_extents := frag_extents 1 4 @ frag_extents 2 5 @ frag_extents 3 6,
        fm_inodes := [frag_inode 1 4, frag_inode 2 5, frag_inode 3 6] @ map empty_inode [4..<11],
        fm_extent_count := 15, fm_inode_count := 10, fm_file_count := 10\<rparr>"

text \<open>Claim C8. The loop over the inodes leaves in \<^verbatim>\<open>fragged_inodes\<close> the number of the
  inodes that have the flag \<^verbatim>\<open>FM_IFLAGS_FRAGMENTED\<close>, and in \<^verbatim>\<open>fragged_extents\<close> the sum of
  their \<^verbatim>\<open>extcount\<close> (both as \<^verbatim>\<open>uint64_t\<close>). When \<^verbatim>\<open>fm_extent_count\<close> is zero the function
  returns at once and writes nothing. Otherwise what it writes has the line of the
  fragmented inodes exactly when the preamble is not skipped and \<^verbatim>\<open>fragged_inodes\<close> is not
  zero, once, with the two totals' quotients: the percentage is
  100 * (fragged_inodes / fm_inode_count) and the average is
  fragged_extents / fragged_inodes, each operation rounded to \<^verbatim>\<open>long double\<close> and the result
  to two decimals; with exact arithmetic they are these quotients themselves. For ten
  inodes of which three are fragmented, with 4, 5 and 6 extents, the line shows 30.00 and
  5.00, in every format that is at least as precise as binary64.\<close>

theorem aggregate_statistics:
  "fragged_totals tbl =
     (sum_list (map extcount (filter fragmented tbl)), of_nat (length (filter fragmented tbl)))
   \<and> (fm_extent_count s = 0 \<longrightarrow> fm_print_results ld opts s = Inr [])
   \<and> (fragged_totals (fm_inodes s) = (fe, fi) \<and> fm_print_results ld opts s = Inr out \<longrightarrow>
        filter is_fragmented_line out =
          (if fm_extent_count s \<noteq> 0 \<and> \<not> fm_skip_preamble opts \<and> fi \<noteq> 0
           then [Fragmented_inodes fi (fm_inode_count s)
                   (map_option fmt2 (inofragpcnt ld fi (fm_inode_count s)))
                   (map_option fmt2 (extfragratio ld fe fi))]
           else []))
   \<and> (ld (real (unat ic)) \<noteq> 0 \<longrightarrow>
        inofragpcnt ld fi ic = Some (ld (100 * ld (ld (real (unat fi)) / ld (real (unat ic))))))
   \<and> (ld (real (unat fi)) \<noteq> 0 \<longrightarrow>
        extfragratio ld fe fi = Some (ld (ld (real (unat fe)) / ld (real (unat fi)))))
   \<and> (ic \<noteq> 0 \<longrightarrow>
        inofragpcnt (\<lambda>x. x) fi ic = Some (100 * (real (unat fi) / real (unat ic))))
   \<and> (fi \<noteq> 0 \<longrightarrow> extfragratio (\<lambda>x. x) fe fi = Some (real (unat fe) / real (unat fi)))
   \<and> (accurate ld \<and> fm_inode_count s = 10
        \<and> map extcount (filter fragmented (fm_inodes s)) = [4, 5, 6]
        \<and> fm_extent_count s \<noteq> 0 \<and> \<not> fm_skip_preamble opts
        \<and> fm_print_results ld opts s = Inr out \<longrightarrow>
        filter is_fragmented_line out = [Fragmented_inodes 3 10 (Some 3000) (Some 500)])"
proof (intro conjI impI)
  show "fragged_totals tbl =
     (sum_list (map extcount (filter fragmented tbl)), of_nat (length (filter fragmented tbl)))"
    by (rule fragged_totals_eq)
next
  assume "fm_extent_count s = 0"
  then show "fm_print_results ld opts s = Inr []" by (simp add: fm_print_results_def)
next
  assume a: "fragged_totals (fm_inodes s) = (fe, fi) \<and> fm_print_results ld opts s = Inr out"
  then have "fm_print_results ld opts s = Inr out" by simp
  from fm_print_results_line [OF this] a
  show "filter is_fragmented_line out =
          (if fm_extent_count s \<noteq> 0 \<and> \<not> fm_skip_preamble opts \<and> fi \<noteq> 0
           then [Fragmented_inodes fi (fm_inode_count s)
                   (map_option fmt2 (inofragpcnt ld fi (fm_inode_count s)))
                   (map_option fmt2 (extfragratio ld fe fi))]
           else [])"
    by simp
next
  assume "ld (real (unat ic)) \<noteq> 0"
  then show "inofragpcnt ld fi ic
      = Some (ld (100 * ld (ld (real (unat fi)) / ld (real (unat ic)))))"
    by (simp add: inofragpcnt_def ld_mul_def ld_div_def ld_of_u64_def)
next
  assume "ld (real (unat fi)) \<noteq> 0"
  then show "extfragratio ld fe fi = Some (ld (ld (real (unat fe)) / ld (real (unat fi))))"
    by (simp add: extfragratio_def ld_div_def ld_of_u64_def)
next
  assume "ic \<noteq> 0"
  then show "inofragpcnt (\<lambda>x. x) fi ic = Some (100 * (real (unat fi) / real (unat ic)))"
    by (simp add: inofragpcnt_def ld_mul_def ld_div_def ld_of_u64_def unsigned_eq_0_iff)
next
  assume "fi \<noteq> 0"
  then show "extfragratio (\<lambda>x. x) fe fi = Some (real (unat fe) / real (unat fi))"
    by (simp add: extfragratio_def ld_div_def ld_of_u64_def unsigned_eq_0_iff)
next
  assume a: "accurate ld \<and> fm_inode_count s = 10
        \<and> map extcount (filter fragmented (fm_inodes s)) = [4, 5, 6]
        \<and> fm_extent_count s \<noteq> 0 \<and> \<not> fm_skip_preamble opts
        \<and> fm_print_results ld opts s = Inr out"
  then have acc: "accurate ld" and out: "fm_print_results ld opts s = Inr out" by simp_all
  from a have "length (map extcount (filter fragmented (fm_inodes s))) = 3" by simp
  then have n: "length (filter fragmented (fm_inodes s)) = 3" by simp
  from a n have t: "fragged_totals (fm_inodes s) = (15, 3)" by (simp add: fragged_totals_eq)
  from fm_print_results_line [OF out] a t
  show "filter is_fragmented_line out = [Fragmented_inodes 3 10 (Some 3000) (Some 500)]"
    by (simp add: inofragpcnt_example [OF acc] extfragratio_example [OF acc])
qed

theorem aggregate_statistics_witness:
  "accurate (\<lambda>x. x) \<and> fm_inode_count ten_inodes = 10
   \<and> map extcount (filter fragmented (fm_inodes ten_inodes)) = [4, 5, 6]
   \<and> fm_extent_count ten_inodes \<noteq> 0 \<and> \<not> fm_skip_preamble default_options
   \<and> fragged_totals (fm_inodes ten_inodes) = (15, 3)
   \<and> (\<exists>out. fm_print_results (\<lambda>x. x) default_options ten_inodes = Inr out
        \<and> length out = 22
        \<and> filter is_fragmented_line out = [Fragmented_inodes 3 10 (Some 3000) (Some 500)])
   \<and> inofragpcnt (\<lambda>x. x) 3 10 = Some 30 \<and> extfragratio (\<lambda>x. x) 15 3 = Some 5
   \<and> fm_extent_count initial_globals = 0
   \<and> fm_print_results (\<lambda>x. x) default_options initial_globals = Inr []"
proof -
  have acc: "accurate (\<lambda>x. x)" by (simp add: accurate_def)
  have tbl: "map extcount (filter fragmented (fm_inodes ten_inodes)) = [4, 5, 6]"
    by (simp add: ten_inodes_def frag_inode_def empty_inode_def fragmented_def
        FM_IFLAGS_FRAGMENTED_def upt_rec)
  have cnt: "fm_inode_count ten_inodes = 10" "fm_extent_count ten_inodes \<noteq> 0"
    "\<not> fm_skip_preamble default_options"
    by (simp_all add: ten_inodes_def default_options_def)
  have z: "fm_extent_count initial_globals = 0" by (simp add: initial_globals_def)
  have tot: "fragged_totals (fm_inodes ten_inodes) = (15, 3)"
    using aggregate_statistics [where tbl = "fm_inodes ten_inodes"] tbl
    by (simp add: length_map [symmetric, where f = extcount] del: length_map)
  have rows: "\<exists>rows. print_rows False (fm_inodes ten_inodes) (fm_extents ten_inodes) = Inr rows
      \<and> length rows = 15"
    by (simp add: ten_inodes_def frag_inode_def empty_inode_def frag_extents_def
        fragmented_def name_rows_def find_inode_def upt_rec)
  then obtain rows where r:
    "print_rows False (fm_inodes ten_inodes) (fm_extents ten_inodes) = Inr rows"
    "length rows = 15"
    by blast
  define out where "out = preamble (\<lambda>x. x) default_options ten_inodes 15 3
      @ [Blank, Table_header] @ rows"
  have res: "fm_print_results (\<lambda>x. x) default_options ten_inodes = Inr out"
    using r(1) tot cnt by (simp add: fm_print_results_def out_def default_options_def)
  have len: "length out = 22"
    using r(2) by (simp add: out_def preamble_def default_options_def Let_def)
  note T = aggregate_statistics [where ld = "\<lambda>x. x" and opts = default_options
      and s = ten_inodes and out = out and fe = 15 and fi = 3 and ic = 10
      and tbl = "fm_inodes ten_inodes"]
  note Z = aggregate_statistics [where ld = "\<lambda>x. x" and opts = default_options
      and s = initial_globals and tbl = "[]" and out = "[]" and fe = 0 and fi = 0 and ic = 0]
  from T acc cnt tbl res
  have line: "filter is_fragmented_line out = [Fragmented_inodes 3 10 (Some 3000) (Some 500)]"
    by blast
  from T have q: "inofragpcnt (\<lambda>x. x) 3 10 = Some 30" "extfragratio (\<lambda>x. x) 15 3 = Some 5"
    by simp_all
  from Z z have e: "fm_print_results (\<lambda>x. x) default_options initial_globals = Inr []"
    by blast
  from acc cnt tbl tot res len line q z e show ?thesis by blast
qed

end
